theory Spec2Isabelle
  imports Main "HOL-Library.Word" "HOL-Library.AList"
begin

section \<open>Data model\<close>

text \<open>
  The values the utilities of \<^verbatim>\<open>anonymize_it/utils.py\<close> work on are the values of a JSON
  document. A Python \<^verbatim>\<open>str\<close> is modelled by a \<^typ>\<open>string\<close>: the characters of its UTF-8
  encoding, so that \<^verbatim>\<open>str.encode()\<close> only changes the element type (a \<^verbatim>\<open>str\<close> with a
  lone surrogate has no UTF-8 encoding and is not a value of the model). Floats are
  not modelled.
\<close>

datatype scalar = SNone | SBool bool | SInt int | SStr string

text \<open>A field of a flattened record holds a scalar or a list of scalars.\<close>

datatype field_value = Scalar scalar | Seq "scalar list"

text \<open>
  A \<^verbatim>\<open>dict\<close> is an association list in insertion order; its keys are distinct.
  \<^verbatim>\<open>Dict\<close> is the only \<^verbatim>\<open>MutableMapping\<close> among the values.
\<close>

datatype pyval = Leaf field_value | Dict "(string \<times> pyval) list"

datatype py_error =
    ConfigParserError string
  | AttributeError
  | TypeError
  | ValueError

text \<open>What a predicate of the source returns: \<^verbatim>\<open>True\<close>, \<^verbatim>\<open>False\<close>, or \<^verbatim>\<open>None\<close> when it
  falls off its end.\<close>

datatype py_ret = PyTrue | PyFalse | PyNone

section \<open>hash\_value\<close>

text \<open>Decimal digits of a natural number, as \<^verbatim>\<open>str(n)\<close> prints them.\<close>

fun digit_char :: "nat \<Rightarrow> char" where
  "digit_char n = ''0123456789'' ! (n mod 10)"

fun str_nat :: "nat \<Rightarrow> string" where
  "str_nat n = (if n < 10 then [digit_char n] else str_nat (n div 10) @ [digit_char n])"

declare str_nat.simps [simp del]

text \<open>\<^verbatim>\<open>format(v, '')\<close> of a scalar, which is what a replacement field of an f-string
  inserts.\<close>

fun py_format :: "scalar \<Rightarrow> string" where
  "py_format SNone = ''None''"
| "py_format (SBool b) = (if b then ''True'' else ''False'')"
| "py_format (SInt i) = (if i < 0 then CHR ''-'' # str_nat (nat (- i)) else str_nat (nat i))"
| "py_format (SStr s) = s"

text \<open>The f-string \<^verbatim>\<open>f"{hashkey}:{field_value}"\<close>.\<close>

definition fstring :: "scalar \<Rightarrow> scalar \<Rightarrow> string" where
  "fstring hashkey field_value = py_format hashkey @ '':'' @ py_format field_value"

text \<open>\<^verbatim>\<open>str.encode()\<close>: the bytes of the UTF-8 encoding.\<close>

definition encode :: "string \<Rightarrow> 8 word list" where
  "encode s = map (\<lambda>c. word_of_nat (of_char c)) s"

text \<open>\<^verbatim>\<open>hexdigest()\<close> of a 256-bit digest: its 32 bytes, most significant first, two
  lower-case hexadecimal digits each.\<close>

definition hex_char :: "nat \<Rightarrow> char" where
  "hex_char n = ''0123456789abcdef'' ! (n mod 16)"

definition hexdigest :: "256 word \<Rightarrow> string" where
  "hexdigest w = map (\<lambda>i. hex_char (unat w div 16 ^ i)) (rev [0..<64])"

text \<open>
  \<^verbatim>\<open>hashlib.sha256\<close> is the standard library's; it is a parameter of the model, a
  function from byte strings to 256-bit digests.
\<close>

definition hash_value :: "(8 word list \<Rightarrow> 256 word) \<Rightarrow> scalar \<Rightarrow> scalar \<Rightarrow> string" where
  "hash_value sha256 hashkey field_value = hexdigest (sha256 (encode (fstring hashkey field_value)))"

section \<open>contains\_secret and contains\_keywords\<close>

text \<open>
  \<^verbatim>\<open>regex.search(f)\<close>: the compiled pattern is the \<^verbatim>\<open>re\<close> module's, so the model takes
  the pattern as the predicate \<open>search\<close> on strings that says whether it finds a match.
  On anything but a string \<^verbatim>\<open>search\<close> raises \<^verbatim>\<open>TypeError\<close>.
\<close>

fun regex_search :: "(string \<Rightarrow> bool) \<Rightarrow> scalar \<Rightarrow> py_error + bool" where
  "regex_search search (SStr s) = Inr (search s)"
| "regex_search search f = Inl TypeError"

fun contains_secret_loop :: "(string \<Rightarrow> bool) \<Rightarrow> scalar list \<Rightarrow> py_error + py_ret" where
  "contains_secret_loop search [] = Inr PyNone"
| "contains_secret_loop search (f # fs) =
     (case regex_search search f of
        Inl e \<Rightarrow> Inl e
      | Inr found \<Rightarrow> if found then Inr PyTrue else contains_secret_loop search fs)"

fun contains_secret :: "(string \<Rightarrow> bool) \<Rightarrow> field_value \<Rightarrow> py_error + py_ret" where
  "contains_secret search (Seq fs) = contains_secret_loop search fs"
| "contains_secret search (Scalar f) =
     (case regex_search search f of
        Inl e \<Rightarrow> Inl e
      | Inr found \<Rightarrow> if found then Inr PyTrue else Inr PyNone)"

text \<open>\<^verbatim>\<open>word in f\<close> for two strings: \<open>word\<close> occurs in \<open>f\<close> as a substring.\<close>

fun starts_with :: "string \<Rightarrow> string \<Rightarrow> bool" where
  "starts_with [] s = True"
| "starts_with (c # w) [] = False"
| "starts_with (c # w) (d # s) = (c = d \<and> starts_with w s)"

fun str_contains :: "string \<Rightarrow> string \<Rightarrow> bool" where
  "str_contains w [] = (w = [])"
| "str_contains w (c # s) = (starts_with w (c # s) \<or> str_contains w s)"

text \<open>\<^verbatim>\<open>word in f\<close> for a scalar \<open>f\<close>: \<^verbatim>\<open>None\<close>, a bool and an int are not iterable.\<close>

fun py_in :: "string \<Rightarrow> scalar \<Rightarrow> py_error + bool" where
  "py_in word (SStr s) = Inr (str_contains word s)"
| "py_in word f = Inl TypeError"

text \<open>\<^verbatim>\<open>any(word in f for f in field_value)\<close>\<close>

fun any_in_fields :: "string \<Rightarrow> scalar list \<Rightarrow> py_error + bool" where
  "any_in_fields word [] = Inr False"
| "any_in_fields word (f # fs) =
     (case py_in word f of
        Inl e \<Rightarrow> Inl e
      | Inr found \<Rightarrow> if found then Inr True else any_in_fields word fs)"

text \<open>\<^verbatim>\<open>any(word in field_value for word in keywords)\<close>\<close>

fun any_word_in :: "string list \<Rightarrow> scalar \<Rightarrow> py_error + bool" where
  "any_word_in [] f = Inr False"
| "any_word_in (word # ws) f =
     (case py_in word f of
        Inl e \<Rightarrow> Inl e
      | Inr found \<Rightarrow> if found then Inr True else any_word_in ws f)"

fun contains_keywords_loop :: "string list \<Rightarrow> scalar list \<Rightarrow> py_error + py_ret" where
  "contains_keywords_loop [] fs = Inr PyNone"
| "contains_keywords_loop (word # ws) fs =
     (case any_in_fields word fs of
        Inl e \<Rightarrow> Inl e
      | Inr found \<Rightarrow> if found then Inr PyTrue else contains_keywords_loop ws fs)"

text \<open>\<open>keywords\<close> is \<^verbatim>\<open>None\<close> or a list of strings; \<^verbatim>\<open>not keywords\<close> holds of \<^verbatim>\<open>None\<close> and
  of the empty list.\<close>

fun contains_keywords :: "field_value \<Rightarrow> string list option \<Rightarrow> py_error + py_ret" where
  "contains_keywords field_value None = Inr PyFalse"
| "contains_keywords field_value (Some []) = Inr PyFalse"
| "contains_keywords (Seq fs) (Some keywords) = contains_keywords_loop keywords fs"
| "contains_keywords (Scalar f) (Some keywords) =
     (case any_word_in keywords f of
        Inl e \<Rightarrow> Inl e
      | Inr found \<Rightarrow> if found then Inr PyTrue else Inr PyNone)"

section \<open>parse\_config\<close>

text \<open>\<^verbatim>\<open>None\<close> as a value of a configuration.\<close>

abbreviation py_None :: pyval where
  "py_None \<equiv> Leaf (Scalar SNone)"

text \<open>\<^verbatim>\<open>d.get(k)\<close>: the value stored under \<open>k\<close>, \<^verbatim>\<open>None\<close> when the key is absent.\<close>

definition dict_get :: "(string \<times> pyval) list \<Rightarrow> string \<Rightarrow> pyval" where
  "dict_get d k = (case map_of d k of None \<Rightarrow> py_None | Some v \<Rightarrow> v)"

text \<open>\<^verbatim>\<open>v.get(k)\<close> on any value: only a \<^verbatim>\<open>dict\<close> has the method, on a string, a number or a
  list the attribute lookup raises \<^verbatim>\<open>AttributeError\<close>.\<close>

fun py_get :: "pyval \<Rightarrow> string \<Rightarrow> py_error + pyval" where
  "py_get (Dict d) k = Inr (dict_get d k)"
| "py_get (Leaf v) k = Inl AttributeError"

text \<open>Truth value testing, as \<^verbatim>\<open>not v\<close> uses it: \<^verbatim>\<open>None\<close>, \<^verbatim>\<open>False\<close>, zero, the empty
  string, the empty list and the empty dict are false.\<close>

fun truthy_scalar :: "scalar \<Rightarrow> bool" where
  "truthy_scalar SNone = False"
| "truthy_scalar (SBool b) = b"
| "truthy_scalar (SInt i) = (i \<noteq> 0)"
| "truthy_scalar (SStr s) = (s \<noteq> [])"

fun truthy :: "pyval \<Rightarrow> bool" where
  "truthy (Leaf (Scalar s)) = truthy_scalar s"
| "truthy (Leaf (Seq xs)) = (xs \<noteq> [])"
| "truthy (Dict d) = (d \<noteq> [])"

record Config =
  source :: pyval
  dest :: pyval
  anonymization_type :: pyval
  masked_fields :: pyval
  suppressed_fields :: pyval
  include_rest :: pyval
  sensitive :: pyval

datatype py_warning = Warning string

definition source_not_defined :: string where
  "source_not_defined = ''source error: source not defined. Please check config.''"

definition dest_not_defined :: string where
  "dest_not_defined = ''destination error: dest not defined. Please check config.''"

definition source_type_not_defined :: string where
  "source_type_not_defined = ''source error: source type not defined. Please check config.''"

definition dest_type_not_defined :: string where
  "dest_type_not_defined = ''destination error: dest type not defined. Please check config.''"

definition no_masked_fields :: py_warning where
  "no_masked_fields = Warning ''no masked fields included in config. No data will be anonymized''"

text \<open>
  \<open>parse_config\<close> returns the warnings it has emitted, in order, and either the exception
  it raised or the \<open>Config\<close> it built. The warning comes after the checks of \<open>source\<close> and
  \<open>dest\<close> and before the two \<^verbatim>\<open>.get('type')\<close> calls.
\<close>

definition parse_config :: "(string \<times> pyval) list \<Rightarrow> py_warning list \<times> (py_error + Config)" where
  "parse_config config =
    (let source = dict_get config ''source'';
         dest = dict_get config ''dest'';
         anonymization_type = dict_get config ''anonymization'';
         masked_fields = dict_get config ''include'';
         suppressed_fields = dict_get config ''exclude'';
         include_rest = dict_get config ''include_rest'';
         sensitive = dict_get config ''sensitive''
     in if \<not> truthy source then ([], Inl (ConfigParserError source_not_defined))
        else if \<not> truthy dest then ([], Inl (ConfigParserError dest_not_defined))
        else
          let warned = (if \<not> truthy masked_fields then [no_masked_fields] else [])
          in case py_get source ''type'' of
               Inl e \<Rightarrow> (warned, Inl e)
             | Inr reader_type \<Rightarrow>
                (case py_get dest ''type'' of
                   Inl e \<Rightarrow> (warned, Inl e)
                 | Inr writer_type \<Rightarrow>
                     if \<not> truthy reader_type
                     then (warned, Inl (ConfigParserError source_type_not_defined))
                     else if \<not> truthy writer_type
                     then (warned, Inl (ConfigParserError dest_type_not_defined))
                     else (warned, Inr \<lparr>source = source, dest = dest,
                             anonymization_type = anonymization_type,
                             masked_fields = masked_fields,
                             suppressed_fields = suppressed_fields,
                             include_rest = include_rest, sensitive = sensitive\<rparr>)))"

text \<open>\<^verbatim>\<open>isinstance(v, MutableMapping)\<close>\<close>

fun is_mapping :: "pyval \<Rightarrow> bool" where
  "is_mapping (Dict d) = True"
| "is_mapping (Leaf v) = False"

text \<open>The \<^verbatim>\<open>type\<close> of a source or destination descriptor, \<^verbatim>\<open>None\<close> when there is none.\<close>

definition type_of_descriptor :: "pyval \<Rightarrow> pyval" where
  "type_of_descriptor v = (case v of Dict d \<Rightarrow> dict_get d ''type'' | Leaf x \<Rightarrow> py_None)"

section \<open>batch\<close>

text \<open>
  \<open>batch\<close> is a generator over one iterator \<open>sourceiter\<close>, and every group it yields reads
  from the same iterator. The state all of them share is the list of the elements
  \<open>sourceiter\<close> has not produced yet, and whether the generator has returned. The input
  is a finite sequence; the group size \<open>size'\<close> is a Python int.
\<close>

text \<open>\<^verbatim>\<open>sys.maxsize\<close>, the largest count \<^verbatim>\<open>islice\<close> accepts, on a 64-bit build.\<close>

definition sys_maxsize :: int where
  "sys_maxsize = 2 ^ 63 - 1"

record 'a batch_state =
  sourceiter :: "'a list"
  finished :: bool

text \<open>
  A group is \<^verbatim>\<open>chain([first], batchiter)\<close> with \<^verbatim>\<open>batchiter = islice(sourceiter, size)\<close>:
  \<open>prefetched\<close> is the one-element list while it has not been consumed, and \<open>remaining\<close>
  is the number of elements \<open>batchiter\<close> may still take from \<open>sourceiter\<close>.
\<close>

record 'a group =
  prefetched :: "'a option"
  remaining :: nat

text \<open>What \<^verbatim>\<open>next(it)\<close> does: it returns an element, raises \<^verbatim>\<open>StopIteration\<close>, or raises
  another exception.\<close>

datatype 'a step = Yielded 'a | StopIteration | Raised py_error

text \<open>
  \<^verbatim>\<open>next(group)\<close>: the prefetched element first, then \<open>batchiter\<close>. An \<^verbatim>\<open>islice\<close> that has
  taken its count stops without touching \<open>sourceiter\<close>; one that finds \<open>sourceiter\<close>
  exhausted is exhausted for good.
\<close>

definition group_next :: "'a group \<Rightarrow> 'a batch_state \<Rightarrow> 'a step \<times> 'a group \<times> 'a batch_state" where
  "group_next g st =
    (case prefetched g of
       Some x \<Rightarrow> (Yielded x, g\<lparr>prefetched := None\<rparr>, st)
     | None \<Rightarrow>
        if remaining g = 0 then (StopIteration, g, st)
        else (case sourceiter st of
                [] \<Rightarrow> (StopIteration, g\<lparr>remaining := 0\<rparr>, st)
              | x # rest \<Rightarrow>
                  (Yielded x, g\<lparr>remaining := remaining g - 1\<rparr>, st\<lparr>sourceiter := rest\<rparr>)))"

text \<open>
  \<^verbatim>\<open>next(b)\<close> for \<^verbatim>\<open>b = batch(iterable, size)\<close>: one turn of the \<^verbatim>\<open>while True\<close> loop.
  \<^verbatim>\<open>islice\<close> refuses a count that is negative or greater than \<^verbatim>\<open>sys.maxsize\<close> with
  \<^verbatim>\<open>ValueError\<close>, which ends the generator; \<^verbatim>\<open>next(batchiter)\<close> raises \<^verbatim>\<open>StopIteration\<close>
  when the count is zero or \<open>sourceiter\<close> is exhausted, and the generator returns.
\<close>

definition batch_next :: "int \<Rightarrow> 'a batch_state \<Rightarrow> 'a group step \<times> 'a batch_state" where
  "batch_next size' st =
    (if finished st then (StopIteration, st)
     else if size' < 0 \<or> sys_maxsize < size'
     then (Raised ValueError, st\<lparr>finished := True\<rparr>)
     else if size' = 0 then (StopIteration, st\<lparr>finished := True\<rparr>)
     else (case sourceiter st of
             [] \<Rightarrow> (StopIteration, st\<lparr>finished := True\<rparr>)
           | x # rest \<Rightarrow>
               (Yielded \<lparr>prefetched = Some x, remaining = nat (size' - 1)\<rparr>,
                st\<lparr>sourceiter := rest\<rparr>)))"

text \<open>\<^verbatim>\<open>batch(iterable, size)\<close> before its first \<^verbatim>\<open>next\<close>.\<close>

definition batch :: "'a list \<Rightarrow> 'a batch_state" where
  "batch iterable = \<lparr>sourceiter = iterable, finished = False\<rparr>"

text \<open>A consumer that takes at most \<open>n\<close> elements of a group:
  \<^verbatim>\<open>[x for _, x in zip(range(n), group)]\<close>.\<close>

fun take_from :: "nat \<Rightarrow> 'a group \<Rightarrow> 'a batch_state \<Rightarrow> 'a list \<times> 'a group \<times> 'a batch_state" where
  "take_from 0 g st = ([], g, st)"
| "take_from (Suc n) g st =
     (case group_next g st of
        (Yielded x, g', st') \<Rightarrow>
          (case take_from n g' st' of (xs, g'', st'') \<Rightarrow> (x # xs, g'', st''))
      | (r, g', st') \<Rightarrow> ([], g', st'))"

text \<open>A consumer that takes a whole group: \<^verbatim>\<open>list(group)\<close>.\<close>

function list_group :: "'a group \<Rightarrow> 'a batch_state \<Rightarrow> 'a list \<times> 'a group \<times> 'a batch_state" where
  "list_group g st =
     (case group_next g st of
        (Yielded x, g', st') \<Rightarrow>
          (case list_group g' st' of (xs, g'', st'') \<Rightarrow> (x # xs, g'', st''))
      | (r, g', st') \<Rightarrow> ([], g', st'))"
  by pat_completeness auto
termination
  by (relation "measure (\<lambda>(g, st). (case prefetched g of Some x \<Rightarrow> 1 | None \<Rightarrow> 0) + remaining g)")
     (auto simp: group_next_def split: option.splits if_splits list.splits)

declare list_group.simps [simp del]

text \<open>The elements a group still holds itself.\<close>

definition pending :: "'a group \<Rightarrow> 'a list" where
  "pending g = (case prefetched g of Some x \<Rightarrow> [x] | None \<Rightarrow> [])"

text \<open>\<^verbatim>\<open>list(group)\<close> in closed form: what the group still holds, then as many elements
  of \<open>sourceiter\<close> as its \<^verbatim>\<open>islice\<close> may still take.\<close>

lemma list_group_eq:
  "list_group g st =
     (pending g @ take (remaining g) (sourceiter st),
      \<lparr>prefetched = None, remaining = 0\<rparr>,
      st\<lparr>sourceiter := drop (remaining g) (sourceiter st)\<rparr>)"
proof (induction g st rule: list_group.induct)
  case (1 g st)
  show ?case
  proof (cases "prefetched g")
    case (Some x)
    then have gn: "group_next g st = (Yielded x, g\<lparr>prefetched := None\<rparr>, st)"
      by (simp add: group_next_def)
    show ?thesis
      using "1.IH"[OF gn[symmetric] refl refl] Some
      by (subst list_group.simps) (simp add: gn pending_def)
  next
    case None
    show ?thesis
    proof (cases "remaining g = 0")
      case True
      then have gn: "group_next g st = (StopIteration, g, st)"
        using None by (simp add: group_next_def)
      show ?thesis using None True
        by (subst list_group.simps) (simp add: gn pending_def)
    next
      case False
      show ?thesis
      proof (cases "sourceiter st")
        case Nil
        then have gn: "group_next g st = (StopIteration, g\<lparr>remaining := 0\<rparr>, st)"
          using None False by (simp add: group_next_def)
        show ?thesis using None Nil
          by (subst list_group.simps) (simp add: gn pending_def)
      next
        case (Cons x rest)
        then have gn: "group_next g st
            = (Yielded x, g\<lparr>remaining := remaining g - 1\<rparr>, st\<lparr>sourceiter := rest\<rparr>)"
          using None False by (simp add: group_next_def)
        obtain r where r: "remaining g = Suc r" using False by (cases "remaining g") auto
        show ?thesis
          using "1.IH"[OF gn[symmetric] refl refl] None Cons r
          by (subst list_group.simps) (simp add: gn pending_def)
      qed
    qed
  qed
qed

lemma batch_next_shrinks:
  "batch_next n st = (Yielded g, st') \<Longrightarrow> length (sourceiter st') < length (sourceiter st)"
  by (auto simp: batch_next_def split: if_splits list.splits)

text \<open>The consumer that takes every group whole before it asks for the next:
  \<^verbatim>\<open>[list(group) for group in batch(iterable, size)]\<close>. Each turn shortens \<open>sourceiter\<close>,
  so the loop ends.\<close>

function list_batches :: "int \<Rightarrow> 'a batch_state \<Rightarrow> py_error + 'a list list" where
  "list_batches size' st =
     (case batch_next size' st of
        (Yielded g, st') \<Rightarrow>
          (case list_group g st' of
             (xs, g', st'') \<Rightarrow>
               (case list_batches size' st'' of
                  Inl e \<Rightarrow> Inl e
                | Inr gs \<Rightarrow> Inr (xs # gs)))
      | (StopIteration, st') \<Rightarrow> Inr []
      | (Raised e, st') \<Rightarrow> Inl e)"
  by pat_completeness auto
termination
  apply (relation "measure (\<lambda>(n, st). length (sourceiter st))")
   apply simp
  apply (auto simp: list_group_eq dest!: batch_next_shrinks [OF sym])
  done

declare list_batches.simps [simp del]

text \<open>
  A consumer that does not take a group whole. \<open>st\<close> is the state in which it asks
  for a group, the first or a later one. It takes \<open>j\<close> elements of that group, asks
  for the next group and takes it whole, then takes what is left of the earlier
  group, and at last lists the later group again.
  \<^verbatim>\<open>g1 = next(b); a = [x for _, x in zip(range(j), g1)]; g2 = next(b);\<close>
  \<^verbatim>\<open>b2 = list(g2); c = list(g1); d = list(g2)\<close>
\<close>

definition interleaved ::
  "'a batch_state \<Rightarrow> int \<Rightarrow> nat \<Rightarrow> ('a list \<times> 'a list \<times> 'a list \<times> 'a list) option" where
  "interleaved st size' j =
     (case batch_next size' st of
        (Yielded g1, st1) \<Rightarrow>
          (case take_from j g1 st1 of
             (a, g1', st2) \<Rightarrow>
               (case batch_next size' st2 of
                  (Yielded g2, st3) \<Rightarrow>
                    (case list_group g2 st3 of
                       (b, g2', st4) \<Rightarrow>
                         (case list_group g1' st4 of
                            (c, g1'', st5) \<Rightarrow>
                              (case list_group g2' st5 of
                                 (d, g2'', st6) \<Rightarrow> Some (a, b, c, d))))
                | (r, st3) \<Rightarrow> None))
      | (r, st1) \<Rightarrow> None)"

text \<open>The groups the specification describes: consecutive runs of \<open>n\<close> elements, the last
  one possibly shorter.\<close>

function chunks :: "nat \<Rightarrow> 'a list \<Rightarrow> 'a list list" where
  "chunks n xs = (if n = 0 \<or> xs = [] then [] else take n xs # chunks n (drop n xs))"
  by pat_completeness auto
termination
  by (relation "measure (\<lambda>(n, xs). length xs)") auto

declare chunks.simps [simp del]

section \<open>flatten\_nest\<close>

text \<open>
  \<^verbatim>\<open>dict(items)\<close>: the pairs are inserted in order; a key that is already there keeps its
  place and takes the new value.
\<close>

definition dict :: "('k \<times> 'v) list \<Rightarrow> ('k \<times> 'v) list" where
  "dict items = fold (\<lambda>(k, v). AList.update k v) items []"

text \<open>\<^verbatim>\<open>parent_key + sep + k if parent_key else k\<close>\<close>

definition new_key :: "string \<Rightarrow> string \<Rightarrow> string \<Rightarrow> string" where
  "new_key parent_key sep k = (if parent_key \<noteq> [] then parent_key @ sep @ k else k)"

text \<open>
  \<open>flatten_loop\<close> is the \<^verbatim>\<open>for\<close> loop that builds the list \<open>items\<close>, \<open>flatten_nest\<close> the
  function: it returns \<^verbatim>\<open>dict(items)\<close>. The argument \<open>d\<close> is a \<^verbatim>\<open>dict\<close>, given by its
  items.
\<close>

function flatten_nest :: "(string \<times> pyval) list \<Rightarrow> string \<Rightarrow> string \<Rightarrow> (string \<times> field_value) list"
  and flatten_loop :: "(string \<times> pyval) list \<Rightarrow> string \<Rightarrow> string \<Rightarrow> (string \<times> field_value) list"
  where
  "flatten_nest d parent_key sep = dict (flatten_loop d parent_key sep)"
| "flatten_loop [] parent_key sep = []"
| "flatten_loop ((k, Dict v) # d) parent_key sep =
     flatten_nest v (new_key parent_key sep k) sep @ flatten_loop d parent_key sep"
| "flatten_loop ((k, Leaf v) # d) parent_key sep =
     (new_key parent_key sep k, v) # flatten_loop d parent_key sep"
  by pat_completeness auto
termination
  by (relation "measure (\<lambda>a. case a of
         Inl (d, p, s) \<Rightarrow> 2 * size_list (size_prod (\<lambda>k. 0) size) d + 1
       | Inr (d, p, s) \<Rightarrow> 2 * size_list (size_prod (\<lambda>k. 0) size) d)")
     auto

text \<open>
  The leaves of a record in the order the loops visit them, each with the list of keys
  that leads to it. Only a \<open>Dict\<close> is entered; a scalar or a list is a leaf.
\<close>

function leaves :: "(string \<times> pyval) list \<Rightarrow> (string list \<times> field_value) list" where
  "leaves [] = []"
| "leaves ((k, Dict v) # d) = map (\<lambda>(ks, x). (k # ks, x)) (leaves v) @ leaves d"
| "leaves ((k, Leaf v) # d) = ([k], v) # leaves d"
  by pat_completeness auto
termination
  by (relation "measure (size_list (size_prod (\<lambda>k. 0) size))") auto

text \<open>The key \<open>flatten_nest\<close> builds on the way down the keys \<open>ks\<close>, starting from
  \<open>parent_key\<close>.\<close>

definition path_key :: "string \<Rightarrow> string \<Rightarrow> string list \<Rightarrow> string" where
  "path_key parent_key sep ks = fold (\<lambda>k p. new_key p sep k) ks parent_key"

text \<open>The keys of every \<^verbatim>\<open>dict\<close> of a record are distinct.\<close>

function distinct_keys :: "(string \<times> pyval) list \<Rightarrow> bool" where
  "distinct_keys [] = True"
| "distinct_keys ((k, Dict v) # d) = (k \<notin> set (map fst d) \<and> distinct_keys v \<and> distinct_keys d)"
| "distinct_keys ((k, Leaf v) # d) = (k \<notin> set (map fst d) \<and> distinct_keys d)"
  by pat_completeness auto
termination
  by (relation "measure (size_list (size_prod (\<lambda>k. 0) size))") auto

text \<open>The separator occurs in no key of the record, at any level.\<close>

function sep_free :: "string \<Rightarrow> (string \<times> pyval) list \<Rightarrow> bool" where
  "sep_free sep [] = True"
| "sep_free sep ((k, Dict v) # d) = (\<not> str_contains sep k \<and> sep_free sep v \<and> sep_free sep d)"
| "sep_free sep ((k, Leaf v) # d) = (\<not> str_contains sep k \<and> sep_free sep d)"
  by pat_completeness auto
termination
  by (relation "measure (\<lambda>(s, d). size_list (size_prod (\<lambda>k. 0) size) d)") auto

text \<open>No mapping nested in the record is empty.\<close>

function no_empty_mapping :: "(string \<times> pyval) list \<Rightarrow> bool" where
  "no_empty_mapping [] = True"
| "no_empty_mapping ((k, Dict v) # d) = (v \<noteq> [] \<and> no_empty_mapping v \<and> no_empty_mapping d)"
| "no_empty_mapping ((k, Leaf v) # d) = no_empty_mapping d"
  by pat_completeness auto
termination
  by (relation "measure (size_list (size_prod (\<lambda>k. 0) size))") auto

text \<open>The items of a record when no \<open>dict\<close> is built on the way: every leaf under the
  key of its path.\<close>

definition flat_items :: "(string \<times> pyval) list \<Rightarrow> string \<Rightarrow> string \<Rightarrow> (string \<times> field_value) list" where
  "flat_items d parent_key sep = map (\<lambda>(ks, x). (path_key parent_key sep ks, x)) (leaves d)"

text \<open>\<^verbatim>\<open>sep.join(ks)\<close>\<close>

fun join :: "string \<Rightarrow> string list \<Rightarrow> string" where
  "join sep [] = []"
| "join sep [k] = k"
| "join sep (k # ks) = k @ sep @ join sep ks"

text \<open>
  A separator has a border when one of its proper prefixes, not empty, is also its
  suffix, as \<^verbatim>\<open>"aba"\<close> has \<^verbatim>\<open>"a"\<close>. A separator of one character has none.
\<close>

definition unbordered :: "string \<Rightarrow> bool" where
  "unbordered sep = list_all (\<lambda>n. take n sep \<noteq> drop (length sep - n) sep) [1..<length sep]"

section \<open>unflatten\<close>

text \<open>
  \<^verbatim>\<open>s.split(sep)\<close>: the pieces of \<open>s\<close> between the occurrences of \<open>sep\<close>, found from the
  left. (Python refuses an empty separator; here it splits nothing.)
\<close>

function split_str :: "string \<Rightarrow> string \<Rightarrow> string list" where
  "split_str sep [] = [[]]"
| "split_str sep (c # s) =
     (if sep \<noteq> [] \<and> starts_with sep (c # s)
      then [] # split_str sep (drop (length sep) (c # s))
      else (case split_str sep s of
              [] \<Rightarrow> [[c]]
            | piece # pieces \<Rightarrow> (c # piece) # pieces))"
  by pat_completeness auto
termination
  by (relation "measure (\<lambda>(sep, s). length s)") auto

text \<open>
  Modelled from the spec: the repository has no function that undoes \<open>flatten_nest\<close>;
  the spec speaks of converting a flat mapping of dotted-path keys "conceptually back"
  and of reconstructing "the nested structure from the surviving flat paths".
  \<open>insert_path\<close> stores a value under a list of keys, making the mappings on the way
  that are not there yet.
\<close>

fun insert_path :: "string list \<Rightarrow> field_value \<Rightarrow> (string \<times> pyval) list \<Rightarrow> (string \<times> pyval) list" where
  "insert_path [] x d = d"
| "insert_path [k] x d = AList.update k (Leaf x) d"
| "insert_path (k # ks) x d =
     AList.update k
       (Dict (insert_path ks x (case map_of d k of Some (Dict v) \<Rightarrow> v | _ \<Rightarrow> []))) d"

text \<open>Modelled from the spec: \<open>unflatten\<close>, the inverse of \<open>flatten_nest\<close> that the spec
  names and the repository does not have. It splits every flat key at the separator
  and stores its value under the pieces, in the order of the flat mapping.\<close>

definition unflatten :: "(string \<times> field_value) list \<Rightarrow> string \<Rightarrow> (string \<times> pyval) list" where
  "unflatten flat sep = fold (\<lambda>(path, x). insert_path (split_str sep path) x) flat []"

section \<open>Properties of hash\_value\<close>






text \<open>
  C10: the token depends on the pair only through the concatenation
  \<^verbatim>\<open>"{hashkey}:{field_value}"\<close>. Two pairs whose concatenations agree get the same token,
  whatever the digest function is; \<^verbatim>\<open>('a', 'b:c')\<close> and \<^verbatim>\<open>('a:b', 'c')\<close> are such pairs, so
  \<open>hash_value\<close> is not injective on pairs.
\<close>

theorem hash_value_concat_collision:
  "(fstring k1 v1 = fstring k2 v2 \<longrightarrow> hash_value sha256 k1 v1 = hash_value sha256 k2 v2)
   \<and> (SStr ''a'', SStr ''b:c'') \<noteq> (SStr ''a:b'', SStr ''c'')
   \<and> hash_value sha256 (SStr ''a'') (SStr ''b:c'') = hash_value sha256 (SStr ''a:b'') (SStr ''c'')
   \<and> \<not> inj (\<lambda>(k, v). hash_value sha256 k v)"
proof -
  have eq: "hash_value sha256 (SStr ''a'') (SStr ''b:c'')
            = hash_value sha256 (SStr ''a:b'') (SStr ''c'')"
    by (simp add: hash_value_def fstring_def)
  have ne: "(SStr ''a'', SStr ''b:c'') \<noteq> (SStr ''a:b'', SStr ''c'')"
    by simp
  have "\<not> inj (\<lambda>(k, v). hash_value sha256 k v)"
  proof
    assume "inj (\<lambda>(k, v). hash_value sha256 k v)"
    then have "(SStr ''a'', SStr ''b:c'') = (SStr ''a:b'', SStr ''c'')"
      using eq
      by (auto dest!: injD [where x = "(SStr ''a'', SStr ''b:c'')"
                              and y = "(SStr ''a:b'', SStr ''c'')"])
    with ne show False by blast
  qed
  then show ?thesis using eq ne by (simp add: hash_value_def)
qed

theorem hash_value_concat_collision_witness:
  "fstring (SStr ''1'') (SInt 2) = fstring (SInt 1) (SStr ''2'')
   \<and> hash_value (\<lambda>bs. word_of_nat (length bs)) (SStr ''1'') (SInt 2)
     = hash_value (\<lambda>bs. word_of_nat (length bs)) (SInt 1) (SStr ''2'')"
proof -
  have h: "fstring (SStr ''1'') (SInt 2) = fstring (SInt 1) (SStr ''2'')"
    by (simp add: fstring_def str_nat.simps)
  from hash_value_concat_collision
         [of "SStr ''1''" "SInt 2" "SInt 1" "SStr ''2''" "\<lambda>bs. word_of_nat (length bs)"] h
  show ?thesis by blast
qed

section \<open>Properties of the match predicates\<close>

lemma starts_with_iff: "starts_with w s \<longleftrightarrow> (\<exists>zs. s = w @ zs)"
  by (induction w s rule: starts_with.induct) auto

text \<open>\<open>str_contains\<close> is the substring relation.\<close>

lemma str_contains_iff: "str_contains w s \<longleftrightarrow> (\<exists>ys zs. s = ys @ w @ zs)"
proof (induction s)
  case Nil
  then show ?case by auto
next
  case (Cons c s)
  show ?case
  proof
    assume "str_contains w (c # s)"
    then consider "starts_with w (c # s)" | "str_contains w s" by auto
    then show "\<exists>ys zs. c # s = ys @ w @ zs"
    proof cases
      case 1
      then obtain zs where "c # s = w @ zs" using starts_with_iff by blast
      then have "c # s = [] @ w @ zs" by simp
      then show ?thesis by blast
    next
      case 2
      then obtain ys zs where "s = ys @ w @ zs" using Cons.IH by blast
      then have "c # s = (c # ys) @ w @ zs" by simp
      then show ?thesis by blast
    qed
  next
    assume "\<exists>ys zs. c # s = ys @ w @ zs"
    then obtain ys zs where e: "c # s = ys @ w @ zs" by blast
    show "str_contains w (c # s)"
    proof (cases ys)
      case Nil
      then have "starts_with w (c # s)" using e starts_with_iff by auto
      then show ?thesis by simp
    next
      case (Cons y ys')
      then have "s = ys' @ w @ zs" using e by simp
      then have "str_contains w s" using Cons.IH by blast
      then show ?thesis by simp
    qed
  qed
qed

lemma contains_secret_loop_strs:
  "contains_secret_loop search (map SStr ss)
     = Inr (if \<exists>s\<in>set ss. search s then PyTrue else PyNone)"
  by (induction ss) auto

lemma any_in_fields_strs:
  "any_in_fields w (map SStr ss) = Inr (\<exists>s\<in>set ss. str_contains w s)"
  by (induction ss) auto

lemma contains_keywords_loop_strs:
  "contains_keywords_loop ws (map SStr ss)
     = Inr (if \<exists>w\<in>set ws. \<exists>s\<in>set ss. str_contains w s then PyTrue else PyNone)"
  by (induction ws) (auto simp: any_in_fields_strs)

text \<open>
  C4, as amended: for every list-valued field whose elements are all strings,
  \<open>contains_secret\<close> returns \<^verbatim>\<open>True\<close> if and only if the pattern is found in at least one
  element and returns \<^verbatim>\<open>None\<close> otherwise, and \<open>contains_keywords\<close> returns \<^verbatim>\<open>True\<close> if and
  only if at least one keyword is a substring of at least one element and returns
  \<^verbatim>\<open>False\<close> (no keywords) or \<^verbatim>\<open>None\<close> otherwise. Either way it is one verdict for the
  whole field.
\<close>

theorem contains_any_string_element:
  "(contains_secret search (Seq (map SStr ss)) = Inr PyTrue \<longleftrightarrow> (\<exists>s\<in>set ss. search s))
   \<and> ((\<nexists>s. s \<in> set ss \<and> search s) \<longleftrightarrow> contains_secret search (Seq (map SStr ss)) = Inr PyNone)
   \<and> (contains_keywords (Seq (map SStr ss)) (Some keywords) = Inr PyTrue
        \<longleftrightarrow> (\<exists>w\<in>set keywords. \<exists>s\<in>set ss. \<exists>ys zs. s = ys @ w @ zs))
   \<and> ((\<nexists>w s. w \<in> set keywords \<and> s \<in> set ss \<and> (\<exists>ys zs. s = ys @ w @ zs))
        \<longleftrightarrow> contains_keywords (Seq (map SStr ss)) (Some keywords)
              = Inr (if keywords = [] then PyFalse else PyNone))"
proof -
  have ck: "contains_keywords (Seq (map SStr ss)) (Some keywords)
            = (if keywords = [] then Inr PyFalse
               else contains_keywords_loop keywords (map SStr ss))"
    by (cases "keywords") simp_all
  show ?thesis
    unfolding ck contains_secret.simps contains_secret_loop_strs contains_keywords_loop_strs
      str_contains_iff
    by auto
qed

theorem contains_any_string_element_witness:
  "contains_secret (str_contains ''secret'') (Seq [SStr ''ok'', SStr ''a secret'']) = Inr PyTrue
   \<and> contains_keywords (Seq [SStr ''ok'', SStr ''a secret'']) (Some [''pass'', ''cre'']) = Inr PyTrue"
proof -
  have "\<exists>s\<in>set [''ok'', ''a secret'']. str_contains ''secret'' s" by simp
  moreover have "''a secret'' = ''a se'' @ ''cre'' @ ''t''" by simp
  then have "\<exists>w\<in>set [''pass'', ''cre'']. \<exists>s\<in>set [''ok'', ''a secret'']. \<exists>ys zs. s = ys @ w @ zs"
    by (metis list.set_intros(1) list.set_intros(2))
  ultimately show ?thesis
    using contains_any_string_element
            [of "str_contains ''secret''" "[''ok'', ''a secret'']" "[''pass'', ''cre'']"]
    by simp
qed

text \<open>
  The claim as stated fails on a list with an element that is not a string: the
  element \<^verbatim>\<open>"secret"\<close> matches, and both predicates raise \<^verbatim>\<open>TypeError\<close> on the \<^verbatim>\<open>5\<close>
  before it instead of returning a truthy result.
\<close>

theorem contains_non_string_counterexample:
  "regex_search (str_contains ''secret'') (SStr ''secret'') = Inr True
   \<and> contains_secret (str_contains ''secret'') (Seq [SInt 5, SStr ''secret'']) = Inl TypeError
   \<and> py_in ''secret'' (SStr ''secret'') = Inr True
   \<and> contains_keywords (Seq [SInt 5, SStr ''secret'']) (Some [''secret'']) = Inl TypeError"
  by simp

text \<open>
  C9: whatever the field value (a scalar or a list, of strings or not),
  \<open>contains_keywords\<close> returns \<^verbatim>\<open>False\<close> when the keyword list is absent (\<^verbatim>\<open>None\<close>) or
  empty: without keywords nothing matches and nothing is raised.
\<close>

theorem contains_keywords_no_keywords:
  "contains_keywords field_value None = Inr PyFalse
   \<and> contains_keywords field_value (Some []) = Inr PyFalse"
  by simp

theorem contains_keywords_no_keywords_witness:
  "contains_keywords (Seq [SInt 5, SStr ''secret'']) None = Inr PyFalse
   \<and> contains_keywords (Scalar (SStr ''secret'')) (Some []) = Inr PyFalse"
  using contains_keywords_no_keywords [of "Seq [SInt 5, SStr ''secret'']"]
    contains_keywords_no_keywords [of "Scalar (SStr ''secret'')"]
  by blast

section \<open>Properties of parse\_config\<close>

lemma messages_distinct:
  "distinct [source_not_defined, dest_not_defined, source_type_not_defined, dest_type_not_defined]"
  by (simp add: source_not_defined_def dest_not_defined_def source_type_not_defined_def
      dest_type_not_defined_def)

lemma parse_config_result:
  assumes "truthy (dict_get config ''source'') \<Longrightarrow> is_mapping (dict_get config ''source'')"
    and "truthy (dict_get config ''dest'') \<Longrightarrow> is_mapping (dict_get config ''dest'')"
  shows "snd (parse_config config) =
      (if \<not> truthy (dict_get config ''source'')
       then Inl (ConfigParserError source_not_defined)
       else if \<not> truthy (dict_get config ''dest'')
       then Inl (ConfigParserError dest_not_defined)
       else if \<not> truthy (type_of_descriptor (dict_get config ''source''))
       then Inl (ConfigParserError source_type_not_defined)
       else if \<not> truthy (type_of_descriptor (dict_get config ''dest''))
       then Inl (ConfigParserError dest_type_not_defined)
       else Inr \<lparr>source = dict_get config ''source'', dest = dict_get config ''dest'',
              anonymization_type = dict_get config ''anonymization'',
              masked_fields = dict_get config ''include'',
              suppressed_fields = dict_get config ''exclude'',
              include_rest = dict_get config ''include_rest'',
              sensitive = dict_get config ''sensitive''\<rparr>)"
proof (cases "truthy (dict_get config ''source'') \<and> truthy (dict_get config ''dest'')")
  case False
  then show ?thesis by (auto simp: parse_config_def Let_def)
next
  case True
  then obtain s d where "dict_get config ''source'' = Dict s" "dict_get config ''dest'' = Dict d"
    using assms by (metis is_mapping.elims(2))
  with True show ?thesis
    by (simp add: parse_config_def Let_def type_of_descriptor_def)
qed

text \<open>
  C3, as amended: for every raw configuration in which \<open>source\<close> and \<open>dest\<close>, when they
  are given a true value, are mappings, \<open>parse_config\<close> raises \<open>ConfigParserError\<close> exactly
  when \<open>source\<close>, \<open>dest\<close>, \<open>source.type\<close> or \<open>dest.type\<close> is absent or false
  (\<^verbatim>\<open>None\<close>, empty, zero or \<^verbatim>\<open>False\<close>), with the message of the first of the four that
  fails, and the four messages differ. Otherwise it returns the \<open>Config\<close> of the seven
  values, \<^verbatim>\<open>None\<close> for each absent key.
\<close>

theorem parse_config_raises_iff:
  assumes "truthy (dict_get config ''source'') \<Longrightarrow> is_mapping (dict_get config ''source'')"
    and "truthy (dict_get config ''dest'') \<Longrightarrow> is_mapping (dict_get config ''dest'')"
  shows "((\<exists>msg. snd (parse_config config) = Inl (ConfigParserError msg))
          \<longleftrightarrow> (\<not> truthy (dict_get config ''source'') \<or> \<not> truthy (dict_get config ''dest'')
               \<or> \<not> truthy (type_of_descriptor (dict_get config ''source''))
               \<or> \<not> truthy (type_of_descriptor (dict_get config ''dest''))))
    \<and> snd (parse_config config) =
      (if \<not> truthy (dict_get config ''source'')
       then Inl (ConfigParserError source_not_defined)
       else if \<not> truthy (dict_get config ''dest'')
       then Inl (ConfigParserError dest_not_defined)
       else if \<not> truthy (type_of_descriptor (dict_get config ''source''))
       then Inl (ConfigParserError source_type_not_defined)
       else if \<not> truthy (type_of_descriptor (dict_get config ''dest''))
       then Inl (ConfigParserError dest_type_not_defined)
       else Inr \<lparr>source = dict_get config ''source'', dest = dict_get config ''dest'',
              anonymization_type = dict_get config ''anonymization'',
              masked_fields = dict_get config ''include'',
              suppressed_fields = dict_get config ''exclude'',
              include_rest = dict_get config ''include_rest'',
              sensitive = dict_get config ''sensitive''\<rparr>)
    \<and> distinct [source_not_defined, dest_not_defined, source_type_not_defined,
                 dest_type_not_defined]"
proof -
  note r = parse_config_result [OF assms]
  have "(\<exists>msg. snd (parse_config config) = Inl (ConfigParserError msg))
          \<longleftrightarrow> (\<not> truthy (dict_get config ''source'') \<or> \<not> truthy (dict_get config ''dest'')
               \<or> \<not> truthy (type_of_descriptor (dict_get config ''source''))
               \<or> \<not> truthy (type_of_descriptor (dict_get config ''dest'')))"
    by (subst r) auto
  with r messages_distinct show ?thesis by blast
qed

theorem parse_config_raises_iff_witness:
  "snd (parse_config [(''source'', Dict [(''type'', Leaf (Scalar (SStr ''elasticsearch'')))]),
                      (''dest'', Dict [(''index'', Leaf (Scalar (SStr ''out'')))])])
     = Inl (ConfigParserError dest_type_not_defined)"
  using parse_config_raises_iff
    [of "[(''source'', Dict [(''type'', Leaf (Scalar (SStr ''elasticsearch'')))]),
          (''dest'', Dict [(''index'', Leaf (Scalar (SStr ''out'')))])]"]
  by (simp add: dict_get_def type_of_descriptor_def)

text \<open>
  The claim as stated fails in two ways. A \<open>source.type\<close> that is present but empty
  raises the error although none of the four keys is missing; and a \<open>source\<close> that is
  present but is a string raises \<^verbatim>\<open>AttributeError\<close>, neither a \<open>ConfigParserError\<close> nor a
  \<open>Config\<close>.
\<close>

theorem parse_config_present_counterexample:
  "snd (parse_config [(''source'', Dict [(''type'', Leaf (Scalar (SStr '''')))]),
                      (''dest'', Dict [(''type'', Leaf (Scalar (SStr ''csv'')))])])
     = Inl (ConfigParserError source_type_not_defined)
   \<and> snd (parse_config [(''source'', Leaf (Scalar (SStr ''elasticsearch''))),
                        (''dest'', Dict [(''type'', Leaf (Scalar (SStr ''csv'')))])])
     = Inl AttributeError"
  by (simp add: parse_config_def dict_get_def)

lemma dict_get_update:
  "dict_get (AList.update k v al) k' = (if k' = k then v else dict_get al k')"
  by (simp add: dict_get_def update_conv')

text \<open>
  C7, as amended: when \<open>include\<close> is empty or absent and \<open>source\<close> and \<open>dest\<close> are
  mappings with a \<open>type\<close> that is not empty, \<open>parse_config\<close> emits the one warning and
  returns the \<open>Config\<close>. The warning is never the reason of a failure: whatever value
  \<open>include\<close> is given, \<open>parse_config\<close> raises the same exception or none; and whenever it
  returns a \<open>Config\<close> for an empty or absent \<open>include\<close>, it has emitted the warning. The
  warning is emitted exactly when \<open>include\<close> is empty or absent and \<open>source\<close> and \<open>dest\<close>
  have passed their tests.
\<close>

theorem parse_config_warning_not_fatal:
  "(\<not> truthy (dict_get config ''include'')
     \<and> dict_get config ''source'' = Dict s \<and> truthy (dict_get s ''type'')
     \<and> dict_get config ''dest'' = Dict d \<and> truthy (dict_get d ''type'')
    \<longrightarrow> parse_config config =
         ([no_masked_fields],
          Inr \<lparr>source = Dict s, dest = Dict d,
               anonymization_type = dict_get config ''anonymization'',
               masked_fields = dict_get config ''include'',
               suppressed_fields = dict_get config ''exclude'',
               include_rest = dict_get config ''include_rest'',
               sensitive = dict_get config ''sensitive''\<rparr>))
   \<and> (snd (parse_config (AList.update ''include'' v config)) = Inl e
        \<longleftrightarrow> snd (parse_config config) = Inl e)
   \<and> (\<not> truthy (dict_get config ''include'') \<and> snd (parse_config config) = Inr c
        \<longrightarrow> fst (parse_config config) = [no_masked_fields])
   \<and> fst (parse_config config) =
        (if truthy (dict_get config ''source'') \<and> truthy (dict_get config ''dest'')
            \<and> \<not> truthy (dict_get config ''include'')
         then [no_masked_fields] else [])"
proof -
  have a: "\<not> truthy (dict_get config ''include'')
     \<and> dict_get config ''source'' = Dict s \<and> truthy (dict_get s ''type'')
     \<and> dict_get config ''dest'' = Dict d \<and> truthy (dict_get d ''type'')
    \<longrightarrow> parse_config config =
         ([no_masked_fields],
          Inr \<lparr>source = Dict s, dest = Dict d,
               anonymization_type = dict_get config ''anonymization'',
               masked_fields = dict_get config ''include'',
               suppressed_fields = dict_get config ''exclude'',
               include_rest = dict_get config ''include_rest'',
               sensitive = dict_get config ''sensitive''\<rparr>)"
  proof
    assume h: "\<not> truthy (dict_get config ''include'')
     \<and> dict_get config ''source'' = Dict s \<and> truthy (dict_get s ''type'')
     \<and> dict_get config ''dest'' = Dict d \<and> truthy (dict_get d ''type'')"
    then have "s \<noteq> []" "d \<noteq> []" by (auto simp: dict_get_def)
    with h show "parse_config config =
         ([no_masked_fields],
          Inr \<lparr>source = Dict s, dest = Dict d,
               anonymization_type = dict_get config ''anonymization'',
               masked_fields = dict_get config ''include'',
               suppressed_fields = dict_get config ''exclude'',
               include_rest = dict_get config ''include_rest'',
               sensitive = dict_get config ''sensitive''\<rparr>)"
      by (simp add: parse_config_def Let_def)
  qed
  have b: "snd (parse_config (AList.update ''include'' v config)) = Inl e
        \<longleftrightarrow> snd (parse_config config) = Inl e"
    by (simp add: parse_config_def Let_def dict_get_update split: sum.splits)
  have c: "\<not> truthy (dict_get config ''include'') \<and> snd (parse_config config) = Inr c
        \<longrightarrow> fst (parse_config config) = [no_masked_fields]"
    by (simp add: parse_config_def Let_def split: sum.splits if_splits)
  have d: "fst (parse_config config) =
        (if truthy (dict_get config ''source'') \<and> truthy (dict_get config ''dest'')
            \<and> \<not> truthy (dict_get config ''include'')
         then [no_masked_fields] else [])"
    by (simp add: parse_config_def Let_def split: sum.splits)
  from a b c d show ?thesis by blast
qed

theorem parse_config_warning_not_fatal_witness:
  "parse_config [(''source'', Dict [(''type'', Leaf (Scalar (SStr ''elasticsearch'')))]),
                 (''dest'', Dict [(''type'', Leaf (Scalar (SStr ''csv'')))]),
                 (''include'', Leaf (Seq []))]
   = ([no_masked_fields],
      Inr \<lparr>source = Dict [(''type'', Leaf (Scalar (SStr ''elasticsearch'')))],
           dest = Dict [(''type'', Leaf (Scalar (SStr ''csv'')))],
           anonymization_type = py_None, masked_fields = Leaf (Seq []),
           suppressed_fields = py_None, include_rest = py_None, sensitive = py_None\<rparr>)"
  using parse_config_warning_not_fatal
    [of "[(''source'', Dict [(''type'', Leaf (Scalar (SStr ''elasticsearch'')))]),
          (''dest'', Dict [(''type'', Leaf (Scalar (SStr ''csv'')))]),
          (''include'', Leaf (Seq []))]"
        "[(''type'', Leaf (Scalar (SStr ''elasticsearch'')))]"
        "[(''type'', Leaf (Scalar (SStr ''csv'')))]"]
  by (simp add: dict_get_def)

text \<open>
  The claim as stated fails in two ways. With \<open>source\<close>, \<open>dest\<close>, \<open>source.type\<close> and
  \<open>dest.type\<close> all present and \<open>include\<close> absent, an empty \<open>dest.type\<close> makes
  \<open>parse_config\<close> raise after the warning instead of returning a \<open>Config\<close>. And when
  \<open>source\<close> is absent the exception comes before the warning, so a configuration with
  no \<open>include\<close> gets no warning.
\<close>

theorem parse_config_warning_counterexample:
  "parse_config [(''source'', Dict [(''type'', Leaf (Scalar (SStr ''elasticsearch'')))]),
                 (''dest'', Dict [(''type'', Leaf (Scalar (SStr '''')))])]
     = ([no_masked_fields], Inl (ConfigParserError dest_type_not_defined))
   \<and> parse_config [(''dest'', Dict [(''type'', Leaf (Scalar (SStr ''csv'')))])]
     = ([], Inl (ConfigParserError source_not_defined))"
  by (simp add: parse_config_def dict_get_def)

section \<open>Properties of batch\<close>

lemma list_batches_chunks:
  "1 \<le> size' \<Longrightarrow> size' \<le> sys_maxsize \<Longrightarrow>
   list_batches size' \<lparr>sourceiter = xs, finished = False\<rparr> = Inr (chunks (nat size') xs)"
proof (induction xs rule: length_induct)
  case (1 xs)
  show ?case
  proof (cases xs)
    case Nil
    then show ?thesis using 1(2,3)
      by (subst list_batches.simps, subst chunks.simps) (simp add: batch_next_def)
  next
    case (Cons x rest)
    obtain n where n: "nat size' = Suc n" "nat (size' - 1) = n"
      using 1(2) by (cases "nat size'") auto
    have bn: "batch_next size' \<lparr>sourceiter = x # rest, finished = False\<rparr>
        = (Yielded \<lparr>prefetched = Some x, remaining = n\<rparr>, \<lparr>sourceiter = rest, finished = False\<rparr>)"
      using 1(2,3) n by (simp add: batch_next_def)
    have "length (drop n rest) < length xs" using Cons by simp
    then have ih: "list_batches size' \<lparr>sourceiter = drop n rest, finished = False\<rparr>
        = Inr (chunks (nat size') (drop n rest))"
      using 1 by blast
    show ?thesis
      using Cons n ih
      by (subst list_batches.simps, subst chunks.simps) (simp add: bn list_group_eq pending_def)
  qed
qed

lemma concat_chunks: "0 < n \<Longrightarrow> concat (chunks n xs) = xs"
  by (induction n xs rule: chunks.induct) (subst chunks.simps, simp)

lemma chunks_full: "g \<in> set (butlast (chunks n xs)) \<Longrightarrow> length g = n"
proof (induction n xs rule: chunks.induct)
  case (1 n xs)
  show ?case
  proof (cases "n = 0 \<or> xs = []")
    case True
    then show ?thesis using "1.prems" by (subst (asm) chunks.simps) simp
  next
    case False
    have c: "chunks n xs = take n xs # chunks n (drop n xs)"
      using False by (subst chunks.simps) simp
    show ?thesis
    proof (cases "chunks n (drop n xs) = []")
      case True
      then show ?thesis using "1.prems" c by simp
    next
      case ne: False
      then have "drop n xs \<noteq> []" by (subst (asm) chunks.simps) auto
      then have "length (take n xs) = n" by simp
      then show ?thesis using "1.prems" "1.IH"[OF False] c ne by auto
    qed
  qed
qed

lemma chunks_last:
  "chunks n xs \<noteq> [] \<Longrightarrow> 0 < length (last (chunks n xs)) \<and> length (last (chunks n xs)) \<le> n"
proof (induction n xs rule: chunks.induct)
  case (1 n xs)
  have False: "\<not> (n = 0 \<or> xs = [])"
    using "1.prems" by (subst (asm) chunks.simps) (auto split: if_splits)
  have c: "chunks n xs = take n xs # chunks n (drop n xs)"
    using False by (subst chunks.simps) simp
  show ?case
  proof (cases "chunks n (drop n xs) = []")
    case True
    then show ?thesis using c False by simp
  next
    case ne: False
    then show ?thesis using "1.IH"[OF False] c by simp
  qed
qed

lemma group_next_prefetched:
  "prefetched g = Some x \<Longrightarrow> group_next g st = (Yielded x, g\<lparr>prefetched := None\<rparr>, st)"
  by (simp add: group_next_def)

lemma group_next_pull:
  "prefetched g = None \<Longrightarrow> remaining g = Suc r \<Longrightarrow> sourceiter st = x # rest \<Longrightarrow>
   group_next g st = (Yielded x, g\<lparr>remaining := r\<rparr>, st\<lparr>sourceiter := rest\<rparr>)"
  by (simp add: group_next_def)

text \<open>Taking \<open>j\<close> elements that the group can still deliver.\<close>

lemma take_from_pulls:
  "prefetched g = None \<Longrightarrow> j \<le> remaining g \<Longrightarrow> j \<le> length (sourceiter st) \<Longrightarrow>
   take_from j g st =
     (take j (sourceiter st), g\<lparr>remaining := remaining g - j\<rparr>,
      st\<lparr>sourceiter := drop j (sourceiter st)\<rparr>)"
proof (induction j arbitrary: g st)
  case 0
  then show ?case by simp
next
  case (Suc j)
  obtain r where r: "remaining g = Suc r" using Suc.prems(2) by (cases "remaining g") auto
  obtain x rest where s: "sourceiter st = x # rest"
    using Suc.prems(3) by (cases "sourceiter st") auto
  have "take_from j (g\<lparr>remaining := r\<rparr>) (st\<lparr>sourceiter := rest\<rparr>) =
     (take j rest, g\<lparr>remaining := r - j\<rparr>, st\<lparr>sourceiter := drop j rest\<rparr>)"
    using Suc.IH[of "g\<lparr>remaining := r\<rparr>" "st\<lparr>sourceiter := rest\<rparr>"] Suc.prems r s by simp
  then show ?case
    using group_next_pull[OF Suc.prems(1) r s] r s by simp
qed

lemma take_from_prefetched:
  assumes "prefetched g = Some x" and "j \<le> remaining g" and "j \<le> length (sourceiter st)"
  shows "take_from (Suc j) g st =
     (x # take j (sourceiter st), \<lparr>prefetched = None, remaining = remaining g - j\<rparr>,
      st\<lparr>sourceiter := drop j (sourceiter st)\<rparr>)"
  using take_from_pulls[of "g\<lparr>prefetched := None\<rparr>" j st] assms
  by (simp add: group_next_prefetched)

lemma unfinished_state: "\<not> finished st \<Longrightarrow> st = batch (sourceiter st)"
  by (cases st) (simp add: batch_def)

text \<open>
  C5, as amended: for every finite input and every size from 1 to \<^verbatim>\<open>sys.maxsize\<close>, the
  consumer that takes each group whole gets, without an exception, groups whose
  concatenation is the input, each of exactly \<open>size\<close> elements but the last, which has
  between 1 and \<open>size\<close> elements; the loop ends since \<open>list_batches\<close> is total. In
  particular \<^verbatim>\<open>batch([1,2,3,4,5], 2)\<close> gives \<^verbatim>\<open>[1,2]\<close>, \<^verbatim>\<open>[3,4]\<close>, \<^verbatim>\<open>[5]\<close>.
\<close>

theorem batch_full_consumption:
  assumes "1 \<le> size'" and "size' \<le> sys_maxsize"
  shows "(\<exists>gs. list_batches size' (batch xs) = Inr gs
          \<and> concat gs = xs
          \<and> (\<forall>g\<in>set (butlast gs). length g = nat size')
          \<and> (gs \<noteq> [] \<longrightarrow> 0 < length (last gs) \<and> length (last gs) \<le> nat size')
          \<and> gs = chunks (nat size') xs)
    \<and> list_batches 2 (batch [1, 2, 3, 4, 5 :: int]) = Inr [[1, 2], [3, 4], [5]]"
proof -
  have "list_batches size' (batch xs) = Inr (chunks (nat size') xs)"
    using assms by (simp add: batch_def list_batches_chunks)
  moreover have "concat (chunks (nat size') xs) = xs"
    using assms by (simp add: concat_chunks)
  moreover have "list_batches 2 (batch [1, 2, 3, 4, 5 :: int]) = Inr [[1, 2], [3, 4], [5]]"
    by (simp add: batch_def list_batches_chunks chunks.simps sys_maxsize_def)
  ultimately show ?thesis
    using chunks_full [of _ "nat size'" xs] chunks_last [of "nat size'" xs] by blast
qed

theorem batch_full_consumption_witness:
  "list_batches 3 (batch ''anonymize'') = Inr [''ano'', ''nym'', ''ize'']
   \<and> list_batches 4 (batch ''anonymize'') = Inr [''anon'', ''ymiz'', ''e'']"
  using batch_full_consumption [of 3 "''anonymize''"] batch_full_consumption [of 4 "''anonymize''"]
  by (simp add: chunks.simps sys_maxsize_def)

text \<open>
  The claim as stated fails for a size above \<^verbatim>\<open>sys.maxsize\<close>: \<^verbatim>\<open>islice\<close> refuses the
  count, and the first \<^verbatim>\<open>next\<close> raises \<^verbatim>\<open>ValueError\<close> instead of yielding a group.
\<close>

theorem batch_size_counterexample:
  "(1 :: int) \<le> 2 ^ 63
   \<and> list_batches (2 ^ 63) (batch [1, 2, 3 :: int]) = Inl ValueError"
  by (simp add: list_batches.simps batch_next_def batch_def sys_maxsize_def)

text \<open>
  C6, as amended: for a size from 1 to \<^verbatim>\<open>sys.maxsize\<close> the groups read from one shared
  cursor. When the consumer, at any point \<open>st\<close> of the iteration, has taken only \<open>j\<close>
  elements of a group, fewer than \<open>size\<close>, and asks for the next group, that group is
  the next \<open>size\<close> elements after the ones already handed out (the \<open>j\<close> taken, or the
  one prefetched element when \<open>j = 0\<close>): it starts with the elements of the run that
  were not consumed, which are not skipped. What the earlier group gives afterwards
  comes from behind the later group, and a group that has been taken whole is empty
  when it is listed again. For a size of at least 2 and a source without repeated
  elements the later group is then not the next consecutive run, so the groups are
  the consecutive runs only when each is taken whole: on \<^verbatim>\<open>[1,2,3,4,5]\<close> with size 3 the
  runs are \<^verbatim>\<open>[1,2,3]\<close>, \<^verbatim>\<open>[4,5]\<close>, and after one element of the first group the second
  group is \<^verbatim>\<open>[2,3,4]\<close>. For size 1 a group is complete when it is created, and the
  groups are the consecutive runs however they are consumed.
\<close>

theorem batch_shared_cursor:
  assumes "1 \<le> size'" and "size' \<le> sys_maxsize" and "\<not> finished st"
    and "j < nat size'" and "max 1 j < length (sourceiter st)"
  shows "interleaved st size' j =
           Some (take j (sourceiter st),
                 take (nat size') (drop (max 1 j) (sourceiter st)),
                 take (1 - j) (sourceiter st)
                   @ take (nat size' - max 1 j) (drop (max 1 j + nat size') (sourceiter st)),
                 [])
         \<and> take (nat size') (drop (max 1 j) (sourceiter st))
             = drop (max 1 j) (take (nat size') (sourceiter st))
               @ take (max 1 j) (drop (nat size') (sourceiter st))
         \<and> (2 \<le> size' \<and> distinct (sourceiter st) \<longrightarrow>
              take (nat size') (drop (max 1 j) (sourceiter st))
                \<noteq> take (nat size') (drop (nat size') (sourceiter st)))
         \<and> (size' = 1 \<longrightarrow>
              take (1 - j) (sourceiter st)
                @ take (nat size' - max 1 j) (drop (max 1 j + nat size') (sourceiter st))
                = take 1 (sourceiter st)
              \<and> take (nat size') (drop (max 1 j) (sourceiter st))
                = take 1 (drop 1 (sourceiter st)))
         \<and> list_batches 3 (batch [1, 2, 3, 4, 5 :: int]) = Inr [[1, 2, 3], [4, 5]]
         \<and> interleaved (batch [1, 2, 3, 4, 5 :: int]) 3 1 = Some ([1], [2, 3, 4], [5], [])"
proof -
  define xs where "xs = sourceiter st"
  have st: "st = batch xs" using assms(3) unfinished_state xs_def by blast
  have len: "max 1 j < length xs" using assms(5) xs_def by simp
  obtain n where n: "nat size' = Suc n" "nat (size' - 1) = n"
    using assms(1) by (cases "nat size'") auto
  obtain x rest where xs: "xs = x # rest" using len by (cases xs) auto
  have "max 1 j - 1 < length rest" using len xs by (cases j) (simp_all add: max_def)
  then have "drop (max 1 j - 1) rest \<noteq> []" by simp
  then obtain y rest' where rest: "drop (max 1 j - 1) rest = y # rest'"
    by (cases "drop (max 1 j - 1) rest") auto
  let ?g1 = "\<lparr>prefetched = Some x, remaining = n\<rparr>"
  let ?st1 = "\<lparr>sourceiter = rest, finished = False\<rparr>"
  have b1: "batch_next size' (batch xs) = (Yielded ?g1, ?st1)"
    using assms(1,2) n xs by (simp add: batch_next_def batch_def)
  let ?g1' = "\<lparr>prefetched = (if j = 0 then Some x else None), remaining = n - (j - 1)\<rparr>"
  let ?st2 = "\<lparr>sourceiter = drop (j - 1) rest, finished = False\<rparr>"
  have t1: "take_from j ?g1 ?st1 = (take j xs, ?g1', ?st2)"
  proof (cases j)
    case 0
    then show ?thesis by simp
  next
    case (Suc k)
    then show ?thesis
      using take_from_prefetched[of ?g1 x k ?st1] assms(4) len n xs by simp
  qed
  have d: "drop (j - 1) rest = y # rest'" using rest by (cases j) (simp_all add: max_def)
  let ?g2 = "\<lparr>prefetched = Some y, remaining = n\<rparr>"
  let ?st3 = "\<lparr>sourceiter = rest', finished = False\<rparr>"
  have b2: "batch_next size' ?st2 = (Yielded ?g2, ?st3)"
    using assms(1,2) n d by (simp add: batch_next_def)
  have rest'_eq: "rest' = drop (max 1 j) rest"
  proof -
    have "rest' = drop 1 (drop (max 1 j - 1) rest)" using rest by simp
    then show ?thesis by (simp add: max_def)
  qed
  have y_eq: "y # take n rest' = take (Suc n) (drop (max 1 j) xs)"
    using rest xs by (cases j) (simp_all add: max_def)
  have l2: "list_group ?g2 ?st3 =
      (take (Suc n) (drop (max 1 j) xs), \<lparr>prefetched = None, remaining = 0\<rparr>,
       \<lparr>sourceiter = drop n rest', finished = False\<rparr>)"
    using y_eq by (simp add: list_group_eq pending_def)
  have src4: "drop n rest' = drop (max 1 j + Suc n) xs"
    using rest'_eq xs by (simp add: add.commute)
  have l1: "fst (list_group ?g1' \<lparr>sourceiter = drop n rest', finished = False\<rparr>) =
      take (1 - j) xs @ take (Suc n - max 1 j) (drop (max 1 j + Suc n) xs)"
    using src4 xs assms(4) n
    by (cases j) (simp_all add: list_group_eq pending_def max_def)
  have l3: "fst (list_group \<lparr>prefetched = None, remaining = 0\<rparr> s) = []" for s :: "'a batch_state"
    by (simp add: list_group_eq pending_def)
  have i: "interleaved (batch xs) size' j =
           Some (take j xs,
                 take (nat size') (drop (max 1 j) xs),
                 take (1 - j) xs @ take (nat size' - max 1 j) (drop (max 1 j + nat size') xs),
                 [])"
    unfolding interleaved_def b1 using t1 b2 l2 l1 l3 n
    by (simp add: list_group_eq split: prod.splits)
  have m: "max 1 j \<le> nat size'" using assms(4) by simp
  have "take (nat size') (drop (max 1 j) xs)
        = take (nat size' - max 1 j) (drop (max 1 j) xs)
          @ take (max 1 j) (drop (nat size' - max 1 j) (drop (max 1 j) xs))"
    using m take_add[of "nat size' - max 1 j" "max 1 j" "drop (max 1 j) xs"] by simp
  then have e: "take (nat size') (drop (max 1 j) xs)
             = drop (max 1 j) (take (nat size') xs) @ take (max 1 j) (drop (nat size') xs)"
    using m by (simp add: drop_take)
  have ne: "take (nat size') (drop (max 1 j) xs) \<noteq> take (nat size') (drop (nat size') xs)"
    if "2 \<le> size'" and dist: "distinct xs"
  proof -
    have mn: "max 1 j < nat size'" using that(1) assms(4) by (simp add: max_def)
    have h: "hd (take (nat size') (drop (max 1 j) xs)) = xs ! max 1 j"
      using len n by (simp add: hd_drop_conv_nth)
    have "drop (max 1 j) xs \<noteq> []" using len by (simp del: max.bounded_iff max_less_iff_conj)
    then have nonempty: "take (nat size') (drop (max 1 j) xs) \<noteq> []" using n by simp
    show ?thesis
    proof (cases "nat size' < length xs")
      case True
      then have "hd (take (nat size') (drop (nat size') xs)) = xs ! nat size'"
        using n by (simp add: hd_drop_conv_nth)
      moreover have "(xs ! max 1 j = xs ! nat size') = (max 1 j = nat size')"
        by (rule nth_eq_iff_index_eq[OF dist len True])
      then have "xs ! max 1 j \<noteq> xs ! nat size'"
        using mn by (metis nat_neq_iff)
      ultimately show ?thesis using h by metis
    next
      case False
      then have "take (nat size') (drop (nat size') xs) = []" by simp
      then show ?thesis using nonempty by simp
    qed
  qed
  have one: "take (1 - j) xs @ take (nat size' - max 1 j) (drop (max 1 j + nat size') xs) = take 1 xs
      \<and> take (nat size') (drop (max 1 j) xs) = take 1 (drop 1 xs)"
    if "size' = 1"
    using that assms(4) by simp
  have x1: "list_batches 3 (batch [1, 2, 3, 4, 5 :: int]) = Inr [[1, 2, 3], [4, 5]]"
    by (simp add: batch_def list_batches_chunks chunks.simps sys_maxsize_def)
  have x2: "interleaved (batch [1, 2, 3, 4, 5 :: int]) 3 1 = Some ([1], [2, 3, 4], [5], [])"
    by (simp add: interleaved_def batch_def batch_next_def group_next_def list_group_eq
        pending_def sys_maxsize_def)
  have st2: "batch (sourceiter st) = st" using assms(3) unfinished_state by metis
  from i e ne one x1 x2 show ?thesis unfolding xs_def st2 by blast
qed

theorem batch_shared_cursor_witness:
  "interleaved (batch [1, 2, 3, 4, 5 :: int]) 3 0 = Some ([], [2, 3, 4], [1, 5], [])
   \<and> [2, 3, 4] \<noteq> [4, 5 :: int]"
  using batch_shared_cursor[of 3 "batch [1, 2, 3, 4, 5 :: int]" 0]
  by (simp add: batch_def sys_maxsize_def)

text \<open>
  The claim as stated fails for size 1, where a group never reads the shared cursor:
  the group asked for while the first is still untouched is \<^verbatim>\<open>[2]\<close> and the first gives
  \<^verbatim>\<open>[1]\<close> afterwards, the consecutive runs, without full consumption. It also fails
  for a size above \<^verbatim>\<open>sys.maxsize\<close>, where \<^verbatim>\<open>islice\<close> raises \<^verbatim>\<open>ValueError\<close> and there are no
  groups.
\<close>

theorem batch_size_one_counterexample:
  "interleaved (batch [1, 2, 3 :: int]) 1 0 = Some ([], [2], [1], [])
   \<and> chunks 1 [1, 2, 3 :: int] = [[1], [2], [3]]
   \<and> interleaved (batch [1, 2, 3 :: int]) (2 ^ 63) 1 = None
   \<and> fst (batch_next (2 ^ 63) (batch [1, 2, 3 :: int])) = Raised ValueError"
  by (simp add: interleaved_def batch_def batch_next_def group_next_def list_group_eq
      pending_def sys_maxsize_def chunks.simps)

section \<open>Properties of flatten\_nest\<close>

subsection \<open>dict\<close>

lemma update_fresh: "k \<notin> fst ` set al \<Longrightarrow> AList.update k v al = al @ [(k, v)]"
  by (induction al) auto

lemma update_at_end:
  "k \<notin> fst ` set al \<Longrightarrow> AList.update k v (al @ [(k, w)]) = al @ [(k, v)]"
  by (induction al) auto

lemma fold_update_fresh:
  "distinct (map fst (acc @ xs)) \<Longrightarrow> fold (\<lambda>(k, v). AList.update k v) xs acc = acc @ xs"
proof (induction xs arbitrary: acc)
  case Nil
  then show ?case by simp
next
  case (Cons kv xs)
  obtain k v where kv: "kv = (k, v)" by (cases kv)
  have "k \<notin> fst ` set acc" using Cons.prems kv by auto
  then have "AList.update k v acc = acc @ [(k, v)]" by (rule update_fresh)
  moreover have "distinct (map fst ((acc @ [(k, v)]) @ xs))" using Cons.prems kv by simp
  ultimately show ?case using Cons.IH[of "acc @ [(k, v)]"] kv by simp
qed

lemma dict_distinct: "distinct (map fst xs) \<Longrightarrow> dict xs = xs"
  unfolding dict_def using fold_update_fresh[of "[]" xs] by simp

lemma update_commute:
  "k \<noteq> k' \<Longrightarrow> k \<in> fst ` set al \<Longrightarrow>
   AList.update k v (AList.update k' v' al) = AList.update k' v' (AList.update k v al)"
  by (induction al) auto

lemma update_fold_commute:
  "k \<notin> fst ` set xs \<Longrightarrow> k \<in> fst ` set al \<Longrightarrow>
   AList.update k v (fold (\<lambda>(k, v). AList.update k v) xs al)
     = fold (\<lambda>(k, v). AList.update k v) xs (AList.update k v al)"
proof (induction xs arbitrary: al)
  case Nil
  then show ?case by simp
next
  case (Cons kv xs)
  obtain k' v' where kv: "kv = (k', v')" by (cases kv)
  have ne: "k \<noteq> k'" and nin: "k \<notin> fst ` set xs" using Cons.prems(1) kv by auto
  have "k \<in> fst ` set (AList.update k' v' al)" using Cons.prems(2) by (simp add: dom_update)
  then have "AList.update k v (fold (\<lambda>(k, v). AList.update k v) xs (AList.update k' v' al))
      = fold (\<lambda>(k, v). AList.update k v) xs (AList.update k v (AList.update k' v' al))"
    using Cons.IH nin by blast
  then show ?case using kv update_commute[OF ne Cons.prems(2)] by simp
qed

lemma fold_update_update:
  "distinct (map fst xs) \<Longrightarrow>
   fold (\<lambda>(k, v). AList.update k v) (AList.update k v xs) al
     = AList.update k v (fold (\<lambda>(k, v). AList.update k v) xs al)"
proof (induction xs arbitrary: al)
  case Nil
  then show ?case by simp
next
  case (Cons kv xs)
  obtain k' v' where kv: "kv = (k', v')" by (cases kv)
  show ?case
  proof (cases "k' = k")
    case True
    have nin: "k \<notin> fst ` set xs" using Cons.prems kv True by auto
    have "AList.update k v (fold (\<lambda>(k, v). AList.update k v) xs (AList.update k v' al))
        = fold (\<lambda>(k, v). AList.update k v) xs (AList.update k v (AList.update k v' al))"
      by (rule update_fold_commute[OF nin]) (simp add: dom_update)
    then show ?thesis using kv True by simp
  next
    case False
    then show ?thesis using Cons kv by simp
  qed
qed

lemma distinct_fold_update:
  "distinct (map fst al) \<Longrightarrow> distinct (map fst (fold (\<lambda>(k, v). AList.update k v) xs al))"
  by (induction xs arbitrary: al) (auto simp: distinct_update)

lemma distinct_dict: "distinct (map fst (dict xs))"
  unfolding dict_def by (rule distinct_fold_update) simp

text \<open>Building a dict from the items of a dict changes nothing further on.\<close>

lemma fold_update_dict:
  "fold (\<lambda>(k, v). AList.update k v) (dict xs) al = fold (\<lambda>(k, v). AList.update k v) xs al"
proof (induction xs rule: rev_induct)
  case Nil
  then show ?case by (simp add: dict_def)
next
  case (snoc kv xs)
  obtain k v where kv: "kv = (k, v)" by (cases kv)
  have "dict (xs @ [kv]) = AList.update k v (dict xs)" by (simp add: dict_def kv)
  then show ?case using snoc kv fold_update_update[OF distinct_dict, of k v xs al] by simp
qed

subsection \<open>flatten\_nest in closed form\<close>

lemma path_key_Cons: "path_key p sep (k # ks) = path_key (new_key p sep k) sep ks"
  by (simp add: path_key_def)

lemma path_key_Nil: "path_key p sep [] = p"
  by (simp add: path_key_def)

lemma flat_items_simps:
  "flat_items [] p sep = []"
  "flat_items ((k, Dict v) # d) p sep = flat_items v (new_key p sep k) sep @ flat_items d p sep"
  "flat_items ((k, Leaf x) # d) p sep = (new_key p sep k, x) # flat_items d p sep"
  by (simp_all add: flat_items_def path_key_Cons path_key_Nil case_prod_unfold comp_def)

lemma flatten_fold:
  "fold (\<lambda>(k, v). AList.update k v) (flatten_nest d p sep) al
     = fold (\<lambda>(k, v). AList.update k v) (flat_items d p sep) al"
  "fold (\<lambda>(k, v). AList.update k v) (flatten_loop d p sep) al
     = fold (\<lambda>(k, v). AList.update k v) (flat_items d p sep) al"
proof (induction d p sep and d p sep arbitrary: al and al rule: flatten_nest_flatten_loop.induct)
  case (1 d parent_key sep)
  then show ?case by (simp add: fold_update_dict)
next
  case (2 parent_key sep)
  then show ?case by (simp add: flat_items_simps)
next
  case (3 k v d parent_key sep)
  then show ?case by (simp add: flat_items_simps)
next
  case (4 k v d parent_key sep)
  then show ?case by (simp add: flat_items_simps)
qed

lemma flatten_nest_closed: "flatten_nest d p sep = dict (flat_items d p sep)"
  using flatten_fold(2)[of d p sep "[]"] by (simp add: dict_def)

lemma path_key_prefix:
  "p \<noteq> [] \<Longrightarrow> path_key p sep ks = p @ concat (map (\<lambda>k. sep @ k) ks)"
  by (induction ks arbitrary: p) (simp_all add: path_key_Nil path_key_Cons new_key_def)

subsection \<open>Splitting a joined path\<close>

lemma str_contains_empty: "str_contains [] s"
  by (cases s) simp_all

lemma starts_with_take: "starts_with w s \<longleftrightarrow> take (length w) s = w \<and> length w \<le> length s"
  by (induction w s rule: starts_with.induct) auto

lemma starts_with_contains: "starts_with w s \<Longrightarrow> str_contains w s"
  by (cases s) (auto simp: starts_with_iff)

lemma no_match_in_key:
  assumes "u \<noteq> []" and "\<not> str_contains sep u" and "unbordered sep"
  shows "\<not> starts_with sep (u @ sep @ rest)"
proof
  assume sw: "starts_with sep (u @ sep @ rest)"
  then have t: "take (length sep) (u @ sep @ rest) = sep" by (simp add: starts_with_take)
  show False
  proof (cases "length sep \<le> length u")
    case True
    then have "take (length sep) u = sep" using t by simp
    then have "u = [] @ sep @ drop (length sep) u" by (metis append_Nil append_take_drop_id)
    then have "str_contains sep u" unfolding str_contains_iff by blast
    with assms(2) show False by blast
  next
    case False
    define n where "n = length sep - length u"
    have n: "0 < n" "n < length sep" "length u + n = length sep"
      using False assms(1) by (cases u; simp add: n_def)+
    have "take (length sep) (u @ sep @ rest) = u @ take n sep"
      using n by (simp add: n_def)
    then have "sep = u @ take n sep" using t by simp
    then have "drop (length u) sep = take n sep"
      by (metis append_eq_conv_conj)
    moreover have "length u = length sep - n" using n by simp
    ultimately have "take n sep = drop (length sep - n) sep" by simp
    moreover have "n \<in> set [1..<length sep]" using n by simp
    ultimately show False using assms(3) unfolding unbordered_def list_all_iff by blast
  qed
qed

lemma split_str_key:
  "\<not> str_contains sep k \<Longrightarrow> split_str sep k = [k]"
proof (induction k)
  case Nil
  then show ?case by simp
next
  case (Cons c k)
  have "\<not> starts_with sep (c # k)" using Cons.prems starts_with_contains by blast
  moreover have "split_str sep k = [k]" using Cons by simp
  ultimately show ?case by simp
qed

lemma split_str_sep:
  "sep \<noteq> [] \<Longrightarrow> split_str sep (sep @ rest) = [] # split_str sep rest"
proof -
  assume "sep \<noteq> []"
  then obtain c s where s: "sep = c # s" by (cases sep) auto
  have "starts_with sep (sep @ rest)" by (simp add: starts_with_iff)
  then show ?thesis using s by simp
qed

lemma split_str_key_sep:
  assumes "unbordered sep" and "sep \<noteq> []"
  shows "\<not> str_contains sep k \<Longrightarrow> split_str sep (k @ sep @ rest) = k # split_str sep rest"
proof (induction k)
  case Nil
  then show ?case using split_str_sep[OF assms(2)] by simp
next
  case (Cons c k)
  have "\<not> starts_with sep ((c # k) @ sep @ rest)"
    by (rule no_match_in_key) (use Cons.prems assms in simp_all)
  moreover have "split_str sep (k @ sep @ rest) = k # split_str sep rest"
    using Cons by simp
  ultimately show ?case by simp
qed

lemma split_join:
  assumes "unbordered sep"
  shows "ks \<noteq> [] \<Longrightarrow> \<forall>k\<in>set ks. \<not> str_contains sep k \<Longrightarrow> split_str sep (join sep ks) = ks"
proof (induction ks rule: induct_list012)
  case 1
  then show ?case by simp
next
  case (2 k)
  then show ?case by (simp add: split_str_key)
next
  case (3 k v va)
  have ne: "sep \<noteq> []" using "3.prems"(2) str_contains_empty by auto
  have "split_str sep (k @ sep @ join sep (v # va)) = k # split_str sep (join sep (v # va))"
    by (rule split_str_key_sep[OF assms ne]) (use "3.prems" in simp)
  then show ?case using 3 by simp
qed

lemma unbordered_char: "unbordered [c]"
  by (simp add: unbordered_def)

subsection \<open>The paths of a record\<close>

lemma leaves_path:
  "(ks, x) \<in> set (leaves d) \<Longrightarrow> ks \<noteq> [] \<and> hd ks \<in> fst ` set d"
  by (induction d arbitrary: ks x rule: leaves.induct) (auto simp: image_iff)

lemma leaves_sep_free:
  "sep_free sep d \<Longrightarrow> (ks, x) \<in> set (leaves d) \<Longrightarrow> \<forall>k\<in>set ks. \<not> str_contains sep k"
  by (induction d arbitrary: ks x rule: leaves.induct) auto

lemma leaves_nonempty:
  "d \<noteq> [] \<Longrightarrow> no_empty_mapping d \<Longrightarrow> leaves d \<noteq> []"
  by (induction d rule: leaves.induct) auto

lemma distinct_map_inj: "distinct xs \<Longrightarrow> inj_on f (set xs) \<Longrightarrow> distinct (map f xs)"
  by (simp add: distinct_map)

lemma distinct_paths:
  "distinct_keys d \<Longrightarrow> distinct (map fst (leaves d))"
proof (induction d rule: leaves.induct)
  case 1
  then show ?case by simp
next
  case (2 k v d)
  have e: "map fst (map (\<lambda>(ks, x). (k # ks, x)) (leaves v)) = map ((#) k) (map fst (leaves v))"
    by (simp add: case_prod_unfold comp_def)
  have a: "distinct (map ((#) k) (map fst (leaves v)))"
  proof (rule distinct_map_inj)
    show "distinct (map fst (leaves v))" using 2 by simp
    show "inj_on ((#) k) (set (map fst (leaves v)))" by (rule inj_onI) simp
  qed
  have b: "distinct (map fst (leaves d))" using 2 by simp
  have c: "set (map ((#) k) (map fst (leaves v))) \<inter> set (map fst (leaves d)) = {}"
  proof (rule ccontr)
    assume "\<not> ?thesis"
    then obtain ks where ks: "ks \<in> set (map ((#) k) (map fst (leaves v)))"
      "ks \<in> set (map fst (leaves d))" by blast
    from ks(1) have "hd ks = k" by auto
    moreover from ks(2) obtain y where "(ks, y) \<in> set (leaves d)" by auto
    ultimately have "k \<in> fst ` set d" using leaves_path by blast
    then show False using "2.prems" by simp
  qed
  have "map fst (leaves ((k, Dict v) # d)) = map ((#) k) (map fst (leaves v)) @ map fst (leaves d)"
    using e by simp
  then show ?case using a b c by (simp only: distinct_append)
next
  case (3 k v d)
  have "[k] \<notin> fst ` set (leaves d)"
  proof
    assume "[k] \<in> fst ` set (leaves d)"
    then obtain x where "([k], x) \<in> set (leaves d)" by auto
    then have "hd [k] \<in> fst ` set d" by (rule leaves_path[THEN conjunct2])
    then show False using "3.prems" by simp
  qed
  moreover have "distinct (map fst (leaves d))" using 3 by simp
  ultimately show ?case by simp
qed

subsection \<open>flatten\_nest on a record without collisions\<close>

lemma join_Cons: "ks \<noteq> [] \<Longrightarrow> join sep (k # ks) = k @ sep @ join sep ks"
  by (cases ks) simp_all

lemma path_key_join:
  "p \<noteq> [] \<Longrightarrow> ks \<noteq> [] \<Longrightarrow> path_key p sep ks = p @ sep @ join sep ks"
proof (induction ks arbitrary: p)
  case Nil
  then show ?case by simp
next
  case (Cons k ks)
  show ?case
  proof (cases ks)
    case Nil
    then show ?thesis using Cons.prems by (simp add: path_key_Cons path_key_Nil new_key_def)
  next
    case (Cons k' ks')
    then have "path_key (new_key p sep k) sep ks = new_key p sep k @ sep @ join sep ks"
      using Cons.IH[of "new_key p sep k"] \<open>p \<noteq> []\<close> by (simp add: new_key_def)
    then show ?thesis using Cons \<open>p \<noteq> []\<close> by (simp add: path_key_Cons new_key_def)
  qed
qed

text \<open>At the top level the key of a path is the joined path, unless the path goes
  through a mapping under the empty key.\<close>

lemma path_key_top:
  assumes "ks \<noteq> []" and "tl ks \<noteq> [] \<longrightarrow> hd ks \<noteq> []"
  shows "path_key [] sep ks = join sep ks"
proof -
  obtain k ks' where ks: "ks = k # ks'" using assms(1) by (cases ks) auto
  show ?thesis
  proof (cases "ks' = []")
    case True
    then show ?thesis using ks by (simp add: path_key_Cons path_key_Nil new_key_def)
  next
    case False
    then have k: "k \<noteq> []" using assms(2) ks by simp
    have "path_key [] sep ks = path_key k sep ks'"
      using ks by (simp add: path_key_Cons new_key_def)
    also have "\<dots> = k @ sep @ join sep ks'" by (rule path_key_join[OF k False])
    also have "\<dots> = join sep ks" using ks False by (simp add: join_Cons)
    finally show ?thesis .
  qed
qed

lemma leaves_top:
  "distinct_keys d \<Longrightarrow> \<not> is_mapping (dict_get d []) \<Longrightarrow> (ks, x) \<in> set (leaves d) \<Longrightarrow>
   tl ks \<noteq> [] \<longrightarrow> hd ks \<noteq> []"
proof (induction d arbitrary: ks x rule: leaves.induct)
  case 1
  then show ?case by simp
next
  case (2 k v d)
  have k: "k \<noteq> []" using "2.prems"(2) by (auto simp: dict_get_def)
  then have "\<not> is_mapping (dict_get d [])" using "2.prems"(2) by (simp add: dict_get_def)
  then show ?case using 2 k by auto
next
  case (3 k v d)
  show ?case
  proof (cases "k = []")
    case True
    then have "[] \<notin> fst ` set d" using "3.prems"(1) by simp
    then have "hd ks \<noteq> []" if "(ks, x) \<in> set (leaves d)" using that leaves_path by metis
    then show ?thesis using "3.prems"(3) by auto
  next
    case False
    then have "\<not> is_mapping (dict_get d [])" using "3.prems"(2) by (simp add: dict_get_def)
    then show ?thesis using 3 by auto
  qed
qed

lemma flat_items_top:
  assumes "distinct_keys d" and "\<not> is_mapping (dict_get d [])"
  shows "flat_items d [] sep = map (\<lambda>(ks, x). (join sep ks, x)) (leaves d)"
  unfolding flat_items_def
proof (rule map_cong[OF refl])
  fix p assume p: "p \<in> set (leaves d)"
  obtain ks x where px: "p = (ks, x)" by (cases p)
  have "ks \<noteq> []" using p px leaves_path by blast
  moreover have "tl ks \<noteq> [] \<longrightarrow> hd ks \<noteq> []" using leaves_top[OF assms] p px by blast
  ultimately show "(case p of (ks, x) \<Rightarrow> (path_key [] sep ks, x)) = (case p of (ks, x) \<Rightarrow> (join sep ks, x))"
    using px by (simp add: path_key_top)
qed

lemma join_inj:
  assumes "unbordered sep"
    and "ks \<noteq> []" "\<forall>k\<in>set ks. \<not> str_contains sep k"
    and "ks' \<noteq> []" "\<forall>k\<in>set ks'. \<not> str_contains sep k"
    and "join sep ks = join sep ks'"
  shows "ks = ks'"
proof -
  have "ks = split_str sep (join sep ks)" by (rule split_join[OF assms(1,2,3), symmetric])
  also have "\<dots> = split_str sep (join sep ks')" by (simp only: assms(6))
  also have "\<dots> = ks'" by (rule split_join[OF assms(1,4,5)])
  finally show ?thesis .
qed

lemma distinct_flat_top:
  assumes "unbordered sep" and "distinct_keys d" and "sep_free sep d"
  shows "distinct (map fst (map (\<lambda>(ks, x). (join sep ks, x)) (leaves d)))"
proof -
  have e: "map fst (map (\<lambda>(ks, x). (join sep ks, x)) (leaves d)) = map (join sep) (map fst (leaves d))"
    by (simp add: case_prod_unfold comp_def)
  have "inj_on (join sep) (set (map fst (leaves d)))"
  proof (rule inj_onI)
    fix ks ks' assume a: "ks \<in> set (map fst (leaves d))" "ks' \<in> set (map fst (leaves d))"
      "join sep ks = join sep ks'"
    obtain x x' where m: "(ks, x) \<in> set (leaves d)" "(ks', x') \<in> set (leaves d)" using a by auto
    have n: "ks \<noteq> []" "ks' \<noteq> []" using m leaves_path by blast+
    have f: "\<forall>k\<in>set ks. \<not> str_contains sep k" "\<forall>k\<in>set ks'. \<not> str_contains sep k"
      using m leaves_sep_free[OF assms(3)] by blast+
    show "ks = ks'" by (rule join_inj[OF assms(1) n(1) f(1) n(2) f(2) a(3)])
  qed
  then have "distinct (map (join sep) (map fst (leaves d)))"
    using distinct_paths[OF assms(2)] by (rule distinct_map_inj[rotated])
  then show ?thesis unfolding e .
qed

lemma flatten_nest_top:
  assumes "unbordered sep" and "distinct_keys d" and "sep_free sep d"
    and "\<not> is_mapping (dict_get d [])"
  shows "flatten_nest d [] sep = map (\<lambda>(ks, x). (join sep ks, x)) (leaves d)"
proof -
  have "flatten_nest d [] sep = dict (map (\<lambda>(ks, x). (join sep ks, x)) (leaves d))"
    by (simp only: flatten_nest_closed flat_items_top[OF assms(2,4)])
  also have "\<dots> = map (\<lambda>(ks, x). (join sep ks, x)) (leaves d)"
    by (rule dict_distinct) (rule distinct_flat_top[OF assms(1,2,3)])
  finally show ?thesis .
qed

text \<open>
  \<open>flatten_nest\<close> in closed form. The empty mapping gives the empty mapping, and in
  general the result is the \<^verbatim>\<open>dict\<close> of the leaves of the record in visiting order:
  only nested mappings are entered, a scalar or a list is emitted as the value of its
  path, and of two leaves that get the same key the later value is kept. A descent
  from a parent path that is not empty appends the separator and the key to it. At
  the top level a leaf gets its keys joined by the separator unless it lies in a
  mapping under the empty key, and a record with distinct keys free of an unbordered
  separator, and no mapping under the empty key, is flattened without collisions.
\<close>

theorem flatten_nest_leaves:
  "flatten_nest [] parent_key sep = []
   \<and> flatten_nest d parent_key sep
       = dict (map (\<lambda>(ks, x). (path_key parent_key sep ks, x)) (leaves d))
   \<and> (parent_key \<noteq> [] \<longrightarrow>
        path_key parent_key sep ks = parent_key @ concat (map (\<lambda>k. sep @ k) ks))
   \<and> (ks \<noteq> [] \<and> (tl ks \<noteq> [] \<longrightarrow> hd ks \<noteq> []) \<longrightarrow> path_key [] sep ks = join sep ks)
   \<and> (distinct_keys d \<and> sep_free sep d \<and> unbordered sep \<and> \<not> is_mapping (dict_get d []) \<longrightarrow>
        flatten_nest d [] sep = map (\<lambda>(ks, x). (join sep ks, x)) (leaves d))"
proof -
  have "flatten_nest [] parent_key sep = []" by (simp add: dict_def)
  moreover have "flatten_nest d parent_key sep
       = dict (map (\<lambda>(ks, x). (path_key parent_key sep ks, x)) (leaves d))"
    using flatten_nest_closed[of d parent_key sep] by (simp only: flat_items_def)
  ultimately show ?thesis
    using path_key_prefix[of parent_key sep ks] path_key_top[of ks sep]
      flatten_nest_top[of sep d]
    by blast
qed

text \<open>
  C8: \<open>flatten_nest\<close> enters nested mappings only, and a descent prefixes the parent
  path and the separator: below the top level also when the parent key is empty, so
  \<^verbatim>\<open>{"a": {"": {"b": 1}}}\<close> gives the key \<^verbatim>\<open>"a..b"\<close>. For a mapping under the empty
  top-level key the code does not do so: the test \<^verbatim>\<open>if parent_key\<close>, which is there to
  find the top level, takes the empty parent path for it, and \<^verbatim>\<open>{"": {"b": 1}}\<close> gives
  the key \<^verbatim>\<open>"b"\<close> where the joined path is \<^verbatim>\<open>".b"\<close>; next to a top-level \<^verbatim>\<open>"b"\<close> the
  leaf is lost.
\<close>

theorem flatten_nest_empty_top_key:
  "flatten_nest [('''', Dict [(''b'', Leaf (Scalar (SInt 1)))])] [] ''.'' = [(''b'', Scalar (SInt 1))]
   \<and> join ''.'' ['''', ''b''] = ''.b''
   \<and> flatten_nest [('''', Dict [(''b'', Leaf (Scalar (SInt 1)))]), (''b'', Leaf (Scalar (SInt 2)))] [] ''.''
       = [(''b'', Scalar (SInt 2))]
   \<and> flatten_nest [(''a'', Dict [('''', Dict [(''b'', Leaf (Scalar (SInt 1)))])])] [] ''.''
       = [(''a..b'', Scalar (SInt 1))]
   \<and> join ''.'' [''a'', '''', ''b''] = ''a..b''"
  by (simp add: dict_def new_key_def)

section \<open>Properties of unflatten\<close>

subsection \<open>Rebuilding a record from its paths\<close>

lemma insert_path_new:
  "k \<notin> fst ` set acc \<Longrightarrow> ks \<noteq> [] \<Longrightarrow>
   insert_path (k # ks) x acc = acc @ [(k, Dict (insert_path ks x []))]"
proof -
  assume k: "k \<notin> fst ` set acc" and "ks \<noteq> []"
  then obtain k' ks' where ks: "ks = k' # ks'" by (cases ks) auto
  have "map_of acc k = None" using k by (simp add: map_of_eq_None_iff)
  then show ?thesis using ks update_fresh[OF k] by simp
qed

lemma insert_path_inside:
  "k \<notin> fst ` set acc \<Longrightarrow> ks \<noteq> [] \<Longrightarrow>
   insert_path (k # ks) x (acc @ [(k, Dict e)]) = acc @ [(k, Dict (insert_path ks x e))]"
proof -
  assume k: "k \<notin> fst ` set acc" and "ks \<noteq> []"
  then obtain k' ks' where ks: "ks = k' # ks'" by (cases ks) auto
  have "map_of acc k = None" using k by (simp add: map_of_eq_None_iff)
  then have "map_of (acc @ [(k, Dict e)]) k = Some (Dict e)" by (simp add: map_add_def)
  then show ?thesis using ks update_at_end[OF k] by simp
qed

lemma insert_path_leaf:
  "k \<notin> fst ` set acc \<Longrightarrow> insert_path [k] x acc = acc @ [(k, Leaf x)]"
  by (simp add: update_fresh)

lemma fold_insert_inside:
  "k \<notin> fst ` set acc \<Longrightarrow> \<forall>p\<in>set ps. fst p \<noteq> [] \<Longrightarrow>
   fold (\<lambda>(ks, x). insert_path ks x) (map (\<lambda>(ks, x). (k # ks, x)) ps) (acc @ [(k, Dict e)])
     = acc @ [(k, Dict (fold (\<lambda>(ks, x). insert_path ks x) ps e))]"
proof (induction ps arbitrary: e)
  case Nil
  then show ?case by simp
next
  case (Cons p ps)
  obtain ks x where p: "p = (ks, x)" by (cases p)
  have "ks \<noteq> []" using Cons.prems(2) p by simp
  then have "insert_path (k # ks) x (acc @ [(k, Dict e)]) = acc @ [(k, Dict (insert_path ks x e))]"
    using insert_path_inside[OF Cons.prems(1)] by blast
  then show ?case using Cons p by simp
qed

lemma fold_insert_new:
  assumes "k \<notin> fst ` set acc" and "\<forall>p\<in>set ps. fst p \<noteq> []" and "ps \<noteq> []"
  shows "fold (\<lambda>(ks, x). insert_path ks x) (map (\<lambda>(ks, x). (k # ks, x)) ps) acc
     = acc @ [(k, Dict (fold (\<lambda>(ks, x). insert_path ks x) ps []))]"
proof -
  obtain ks x ps' where ps: "ps = (ks, x) # ps'" using assms(3) by (cases ps) auto
  have ne: "ks \<noteq> []" using assms(2) ps by simp
  have rest: "\<forall>p\<in>set ps'. fst p \<noteq> []" using assms(2) ps by simp
  have "fold (\<lambda>(ks, x). insert_path ks x) (map (\<lambda>(ks, x). (k # ks, x)) ps) acc
      = fold (\<lambda>(ks, x). insert_path ks x) (map (\<lambda>(ks, x). (k # ks, x)) ps')
          (acc @ [(k, Dict (insert_path ks x []))])"
    using ps insert_path_new[OF assms(1) ne] by simp
  also have "\<dots> = acc @ [(k, Dict (fold (\<lambda>(ks, x). insert_path ks x) ps' (insert_path ks x [])))]"
    by (rule fold_insert_inside[OF assms(1) rest])
  finally show ?thesis using ps by simp
qed

lemma leaves_fst_nonempty: "\<forall>p\<in>set (leaves d). fst p \<noteq> []"
  using leaves_path by fastforce

lemma rebuild:
  "distinct_keys d \<Longrightarrow> no_empty_mapping d \<Longrightarrow> fst ` set d \<inter> fst ` set acc = {} \<Longrightarrow>
   fold (\<lambda>(ks, x). insert_path ks x) (leaves d) acc = acc @ d"
proof (induction d arbitrary: acc rule: leaves.induct)
  case 1
  then show ?case by simp
next
  case (2 k v d)
  have k: "k \<notin> fst ` set acc" using "2.prems"(3) by auto
  have v: "distinct_keys v" "no_empty_mapping v" "v \<noteq> []" using "2.prems" by simp_all
  have dd: "distinct_keys d" "no_empty_mapping d" using "2.prems" by simp_all
  have inner: "fold (\<lambda>(ks, x). insert_path ks x) (leaves v) [] = v"
    using "2.IH"(1)[OF v(1,2), of "[]"] by simp
  have "fold (\<lambda>(ks, x). insert_path ks x) (map (\<lambda>(ks, x). (k # ks, x)) (leaves v)) acc
      = acc @ [(k, Dict v)]"
    using fold_insert_new[OF k leaves_fst_nonempty leaves_nonempty[OF v(3,2)]] inner by simp
  moreover have "fst ` set d \<inter> fst ` set (acc @ [(k, Dict v)]) = {}"
    using "2.prems"(1,3) by auto
  ultimately show ?case using "2.IH"(2)[OF dd, of "acc @ [(k, Dict v)]"] by simp
next
  case (3 k v d)
  have k: "k \<notin> fst ` set acc" using "3.prems"(3) by auto
  have dd: "distinct_keys d" "no_empty_mapping d" using "3.prems" by simp_all
  have "fst ` set d \<inter> fst ` set (acc @ [(k, Leaf v)]) = {}"
    using "3.prems"(1,3) by auto
  then show ?case using "3.IH"[OF dd, of "acc @ [(k, Leaf v)]"] insert_path_leaf[OF k] by simp
qed

lemma unflatten_joined:
  assumes "unbordered sep" and "sep_free sep d"
  shows "unflatten (map (\<lambda>(ks, x). (join sep ks, x)) (leaves d)) sep
         = fold (\<lambda>(ks, x). insert_path ks x) (leaves d) []"
proof -
  have "fold (\<lambda>(path, x). insert_path (split_str sep path) x)
          (map (\<lambda>(ks, x). (join sep ks, x)) ps) acc
        = fold (\<lambda>(ks, x). insert_path ks x) ps acc"
    if "set ps \<subseteq> set (leaves d)" for ps acc
    using that
  proof (induction ps arbitrary: acc)
    case Nil
    then show ?case by simp
  next
    case (Cons p ps)
    obtain ks x where p: "p = (ks, x)" by (cases p)
    have m: "(ks, x) \<in> set (leaves d)" using Cons.prems p by simp
    have "split_str sep (join sep ks) = ks"
      by (rule split_join[OF assms(1)]) (use m leaves_path leaves_sep_free[OF assms(2)] in blast)+
    then show ?case using Cons p by simp
  qed
  then show ?thesis unfolding unflatten_def by blast
qed

text \<open>
  C1, as amended: let \<open>d\<close> be a record whose mappings have distinct keys, none of its
  nested mappings empty, and the value under the empty top-level key, if there is
  one, not a mapping. Let \<open>sep\<close> be a separator that occurs in no key of \<open>d\<close> and has no
  border (every single character is one). Then unflattening the flattened record
  with the same separator gives \<open>d\<close> again, keys in the same order.
\<close>

theorem flatten_unflatten_roundtrip:
  assumes "distinct_keys d"
    and "sep_free sep d"
    and "unbordered sep"
    and "no_empty_mapping d"
    and "\<not> is_mapping (dict_get d [])"
  shows "unflatten (flatten_nest d [] sep) sep = d"
proof -
  have "unflatten (flatten_nest d [] sep) sep
        = unflatten (map (\<lambda>(ks, x). (join sep ks, x)) (leaves d)) sep"
    by (simp only: flatten_nest_top[OF assms(3,1,2,5)])
  also have "\<dots> = fold (\<lambda>(ks, x). insert_path ks x) (leaves d) []"
    by (rule unflatten_joined[OF assms(3,2)])
  also have "\<dots> = [] @ d"
    by (rule rebuild[OF assms(1,4)]) simp
  finally show ?thesis by simp
qed

theorem flatten_unflatten_roundtrip_witness:
  "unflatten
     (flatten_nest
        [(''user'', Dict [(''email'', Leaf (Scalar (SStr ''a@b.com''))),
                          (''address'', Dict [(''zip'', Leaf (Scalar (SInt 1205)))])]),
         (''tags'', Leaf (Seq [SStr ''secret'', SStr ''ok'']))] [] ''.'') ''.''
   = [(''user'', Dict [(''email'', Leaf (Scalar (SStr ''a@b.com''))),
                       (''address'', Dict [(''zip'', Leaf (Scalar (SInt 1205)))])]),
      (''tags'', Leaf (Seq [SStr ''secret'', SStr ''ok'']))]"
  by (rule flatten_unflatten_roundtrip) (simp_all add: unbordered_def dict_get_def)

text \<open>
  The claim as stated fails in three ways, each on a record none of whose keys
  contains the separator. An empty nested mapping leaves no flat field, so a record
  with one is flattened like the record without it and cannot be recovered by any
  inverse. A mapping under the empty top-level key is flattened without the
  separator in front. And with the separator \<^verbatim>\<open>"aba"\<close> the path \<^verbatim>\<open>xab\<close>, \<^verbatim>\<open>y\<close> gives the
  flat key \<^verbatim>\<open>"xababay"\<close>, which is also the flat key of the path \<^verbatim>\<open>x\<close>, \<^verbatim>\<open>bay\<close>.
\<close>

theorem flatten_unflatten_counterexample:
  "sep_free ''.'' [(''a'', Dict [])]
   \<and> flatten_nest [(''a'', Dict [])] [] ''.'' = flatten_nest [] [] ''.''
   \<and> unflatten (flatten_nest [(''a'', Dict [])] [] ''.'') ''.'' \<noteq> [(''a'', Dict [])]
   \<and> sep_free ''.'' [('''', Dict [(''b'', Leaf (Scalar (SInt 1)))])]
   \<and> unflatten (flatten_nest [('''', Dict [(''b'', Leaf (Scalar (SInt 1)))])] [] ''.'') ''.''
       \<noteq> [('''', Dict [(''b'', Leaf (Scalar (SInt 1)))])]
   \<and> sep_free ''aba'' [(''xab'', Dict [(''y'', Leaf (Scalar (SInt 1)))])]
   \<and> unflatten (flatten_nest [(''xab'', Dict [(''y'', Leaf (Scalar (SInt 1)))])] [] ''aba'') ''aba''
       \<noteq> [(''xab'', Dict [(''y'', Leaf (Scalar (SInt 1)))])]"
  by (simp add: dict_def new_key_def unflatten_def)

end
